theory Spec2Isabelle
  imports Main
begin

section \<open>Strings\<close>

text \<open>
  Python \<open>str\<close> values are modelled as \<open>string\<close>: a list of code points below 256.
  The helpers below are the \<open>str\<close> methods and the two regular expressions that the
  image relocation code of \<open>api_server.py\<close>, \<open>test_auto_upload_images.py\<close> and
  \<open>test_full_oss_workflow.py\<close> uses.
\<close>

text \<open>\<open>s.startswith(p)\<close>.\<close>

fun startswith :: "string \<Rightarrow> string \<Rightarrow> bool" where
  "startswith s [] = True"
| "startswith [] (p # ps) = False"
| "startswith (c # cs) (p # ps) = (c = p \<and> startswith cs ps)"

text \<open>\<open>s.endswith(p)\<close>.\<close>

definition endswith :: "string \<Rightarrow> string \<Rightarrow> bool" where
  "endswith s p = startswith (rev s) (rev p)"

text \<open>\<open>p in s\<close> for strings: \<open>p\<close> occurs as a contiguous substring of \<open>s\<close>.\<close>

fun contains :: "string \<Rightarrow> string \<Rightarrow> bool" where
  "contains [] p = (p = [])"
| "contains (c # cs) p = (startswith (c # cs) p \<or> contains cs p)"

text \<open>
  A literal piece of a regular expression: \<open>lit p s\<close> is the rest of \<open>s\<close> after the
  literal \<open>p\<close>, or \<open>None\<close> when \<open>s\<close> does not start with \<open>p\<close>.
\<close>

fun lit :: "string \<Rightarrow> string \<Rightarrow> string option" where
  "lit [] s = Some s"
| "lit (p # ps) [] = None"
| "lit (p # ps) (c # cs) = (if p = c then lit ps cs else None)"

text \<open>
  The class \<open>\s\<close> of Python's \<open>re\<close> on \<open>str\<close> patterns, for code points below 256:
  the ASCII whitespace 9..13, the separators 28..31, the space, NEL (133) and the
  no-break space (160).
\<close>

definition is_space :: "char \<Rightarrow> bool" where
  "is_space c = (let n = of_char c :: nat in
     (9 \<le> n \<and> n \<le> 13) \<or> (28 \<le> n \<and> n \<le> 32) \<or> n = 133 \<or> n = 160)"

section \<open>The link grammar\<close>

text \<open>
  \<open>md_pattern = r'!\[([^\]]*)\]\(([^)]+)\)'\<close> (also \<open>img_pattern\<close> of
  \<open>process_markdown_images\<close>), matched at the start of \<open>s\<close>. The result is
  \<open>(group 1, group 2, rest of s after the match)\<close>. Each greedy repetition is over a
  negated class that excludes the character that must follow it, so the only length
  that can succeed is the maximal one and backtracking finds no other match.
\<close>

definition match_md :: "string \<Rightarrow> (string \<times> string \<times> string) option" where
  "match_md s =
     (case lit ''!['' s of None \<Rightarrow> None | Some s1 \<Rightarrow>
      let alt_text = takeWhile (\<lambda>c. c \<noteq> CHR '']'') s1;
          s2 = dropWhile (\<lambda>c. c \<noteq> CHR '']'') s1 in
      (case lit ''](''  s2 of None \<Rightarrow> None | Some s3 \<Rightarrow>
       let url = takeWhile (\<lambda>c. c \<noteq> CHR '')'') s3;
           s4 = dropWhile (\<lambda>c. c \<noteq> CHR '')'') s3 in
       if url = [] then None
       else (case lit '')'' s4 of None \<Rightarrow> None | Some s5 \<Rightarrow> Some (alt_text, url, s5))))"

text \<open>
  The pieces of
  \<open>html_pattern = r'<img\s+src="([^"]+)"(?:\s+alt="([^"]*)")?[^>]*>'\<close>.
  \<open>spaces1\<close> is \<open>\s+\<close>, \<open>alt_group\<close> is the optional group
  \<open>(?:\s+alt="([^"]*)")\<close> and \<open>tag_end\<close> is \<open>[^>]*>\<close>.
\<close>

definition spaces1 :: "string \<Rightarrow> string option" where
  "spaces1 s = (if takeWhile is_space s = [] then None else Some (dropWhile is_space s))"

definition alt_group :: "string \<Rightarrow> (string \<times> string) option" where
  "alt_group s =
     (case spaces1 s of None \<Rightarrow> None | Some s1 \<Rightarrow>
      (case lit ''alt=\"'' s1 of None \<Rightarrow> None | Some s2 \<Rightarrow>
       (case lit ''\"'' (dropWhile (\<lambda>c. c \<noteq> CHR ''\"'') s2) of None \<Rightarrow> None
        | Some s3 \<Rightarrow> Some (takeWhile (\<lambda>c. c \<noteq> CHR ''\"'') s2, s3))))"

definition tag_end :: "string \<Rightarrow> string option" where
  "tag_end s = lit ''>'' (dropWhile (\<lambda>c. c \<noteq> CHR ''>'') s)"

text \<open>
  \<open>html_pattern\<close> matched at the start of \<open>s\<close>:
  \<open>(group 1, group 2 or None, rest of s after the match)\<close>. The optional group is
  greedy: the matcher first tries it, and only when the rest of the pattern then fails
  does it backtrack to the match without the group (group 2 is then \<open>None\<close>).
\<close>

definition match_html :: "string \<Rightarrow> (string \<times> string option \<times> string) option" where
  "match_html s =
     (case lit ''<img'' s of None \<Rightarrow> None | Some s1 \<Rightarrow>
      (case spaces1 s1 of None \<Rightarrow> None | Some s2 \<Rightarrow>
       (case lit ''src=\"'' s2 of None \<Rightarrow> None | Some s3 \<Rightarrow>
        let url = takeWhile (\<lambda>c. c \<noteq> CHR ''\"'') s3;
            s4 = dropWhile (\<lambda>c. c \<noteq> CHR ''\"'') s3 in
        if url = [] then None
        else (case lit ''\"'' s4 of None \<Rightarrow> None | Some s5 \<Rightarrow>
          (case (case alt_group s5 of None \<Rightarrow> None
                 | Some (alt_text, s6) \<Rightarrow>
                     (case tag_end s6 of None \<Rightarrow> None
                      | Some r \<Rightarrow> Some (url, Some alt_text, r))) of
             Some m \<Rightarrow> Some m
           | None \<Rightarrow>
               (case tag_end s5 of None \<Rightarrow> None | Some r \<Rightarrow> Some (url, None, r)))))))"

lemma lit_length: "lit p s = Some r \<Longrightarrow> length r + length p = length s"
  by (induction p s rule: lit.induct) (auto split: if_splits)

lemma length_dropWhile_le': "length (dropWhile P s) \<le> length s"
  by (induction s) auto

lemma match_md_shorter: "match_md s = Some (a, u, r) \<Longrightarrow> length r < length s"
proof -
  assume m: "match_md s = Some (a, u, r)"
  from m obtain s1 where s1: "lit ''!['' s = Some s1"
    by (auto simp: match_md_def split: option.splits)
  from m s1 obtain s3 where s3: "lit '']('' (dropWhile (\<lambda>c. c \<noteq> CHR '']'') s1) = Some s3"
    by (auto simp: match_md_def Let_def split: option.splits)
  from m s1 s3 have s5: "lit '')'' (dropWhile (\<lambda>c. c \<noteq> CHR '')'') s3) = Some r"
    by (auto simp: match_md_def Let_def split: option.splits if_splits)
  have "length s1 < length s" using lit_length[OF s1] by simp
  moreover have "length s3 < length s1"
    using lit_length[OF s3] length_dropWhile_le'[of "\<lambda>c. c \<noteq> CHR '']''" s1] by simp
  moreover have "length r < length s3"
    using lit_length[OF s5] length_dropWhile_le'[of "\<lambda>c. c \<noteq> CHR '')''" s3] by simp
  ultimately show ?thesis by simp
qed

lemma tag_end_shorter: "tag_end s = Some r \<Longrightarrow> length r < length s"
  using lit_length[of "''>''" "dropWhile (\<lambda>c. c \<noteq> CHR ''>'') s" r]
    length_dropWhile_le'[of "\<lambda>c. c \<noteq> CHR ''>''" s]
  by (simp add: tag_end_def)

lemma spaces1_shorter: "spaces1 s = Some r \<Longrightarrow> length r \<le> length s"
  by (auto simp: spaces1_def length_dropWhile_le' split: if_splits)

lemma alt_group_shorter: "alt_group s = Some (a, r) \<Longrightarrow> length r < length s"
proof -
  assume m: "alt_group s = Some (a, r)"
  from m obtain s1 where s1: "spaces1 s = Some s1"
    by (auto simp: alt_group_def split: option.splits)
  from m s1 obtain s2 where s2: "lit ''alt=\"'' s1 = Some s2"
    by (auto simp: alt_group_def split: option.splits)
  have "length s2 < length s1" using lit_length[OF s2] by simp
  moreover from m s1 s2 have "lit ''\"'' (dropWhile (\<lambda>c. c \<noteq> CHR ''\"'') s2) = Some r"
    by (auto simp: alt_group_def split: option.splits)
  then have "length r < length s2"
    using lit_length[of "''\"''" "dropWhile (\<lambda>c. c \<noteq> CHR ''\"'') s2" r]
      length_dropWhile_le'[of "\<lambda>c. c \<noteq> CHR ''\"''" s2] by simp
  ultimately show ?thesis using spaces1_shorter[OF s1] by simp
qed

lemma match_html_shorter: "match_html s = Some (u, a, r) \<Longrightarrow> length r < length s"
proof -
  assume m: "match_html s = Some (u, a, r)"
  from m obtain s1 where s1: "lit ''<img'' s = Some s1"
    by (auto simp: match_html_def split: option.splits)
  from m s1 obtain s2 where s2: "spaces1 s1 = Some s2"
    by (auto simp: match_html_def split: option.splits)
  from m s1 s2 obtain s3 where s3: "lit ''src=\"'' s2 = Some s3"
    by (auto simp: match_html_def split: option.splits)
  from m s1 s2 s3 obtain s5
    where s5: "lit ''\"'' (dropWhile (\<lambda>c. c \<noteq> CHR ''\"'') s3) = Some s5"
    by (auto simp: match_html_def Let_def split: option.splits if_splits)
  have l5: "length s5 < length s"
    using lit_length[OF s1] spaces1_shorter[OF s2] lit_length[OF s3] lit_length[OF s5]
      length_dropWhile_le'[of "\<lambda>c. c \<noteq> CHR ''\"''" s3] by simp
  from m s1 s2 s3 s5 have "tag_end s5 = Some r \<or>
      (\<exists>a' s6. alt_group s5 = Some (a', s6) \<and> tag_end s6 = Some r)"
    by (auto simp: match_html_def Let_def split: option.splits if_splits)
  then show ?thesis
    using l5 tag_end_shorter alt_group_shorter by (metis less_trans)
qed

text \<open>
  \<open>re.finditer(pattern, s)\<close>: the matches from left to right, each search resuming
  where the previous match ended; a position without a match is skipped by one
  character. Neither pattern matches the empty string, and neither looks behind, so a
  match at a position depends only on the text from that position on.
\<close>

function finditer_md :: "string \<Rightarrow> (string \<times> string) list" where
  "finditer_md s =
     (case match_md s of
        Some (alt_text, url, r) \<Rightarrow> (alt_text, url) # finditer_md r
      | None \<Rightarrow> (case s of [] \<Rightarrow> [] | c # cs \<Rightarrow> finditer_md cs))"
  by pat_completeness auto
termination
  by (relation "measure length") (auto simp: match_md_shorter)

function finditer_html :: "string \<Rightarrow> (string \<times> string option) list" where
  "finditer_html s =
     (case match_html s of
        Some (url, alt_text, r) \<Rightarrow> (url, alt_text) # finditer_html r
      | None \<Rightarrow> (case s of [] \<Rightarrow> [] | c # cs \<Rightarrow> finditer_html cs))"
  by pat_completeness auto
termination
  by (relation "measure length") (auto simp: match_html_shorter)

declare finditer_md.simps [simp del]
declare finditer_html.simps [simp del]

section \<open>Extraction\<close>

text \<open>
  \<open>extract_image_urls\<close> of \<open>test_auto_upload_images.py\<close>; the same two loops open
  \<open>download_images_to_local\<close> of \<open>test_full_oss_workflow.py\<close>. First every raw tag, then
  every inline image whose target starts with \<open>http://\<close> or \<open>https://\<close>.
\<close>

definition extract_image_urls :: "string \<Rightarrow> (string \<times> string) list" where
  "extract_image_urls md_content =
     map (\<lambda>(url, g2). (case g2 of None \<Rightarrow> [] | Some a \<Rightarrow> a, url)) (finditer_html md_content)
     @ filter (\<lambda>(alt_text, url). startswith url ''http://'' \<or> startswith url ''https://'')
         (finditer_md md_content)"

section \<open>Storage backends\<close>

text \<open>
  The two \<open>StorageBackend\<close> classes of \<open>api_server.py\<close> with the fields their
  constructors keep: \<open>MinioStorage endpoint bucket secure\<close> and
  \<open>OSSStorage endpoint bucket_name\<close>. The client handles are not part of the value.
\<close>

datatype storage_backend =
    MinioStorage string string bool
  | OSSStorage string string

text \<open>\<open>MinioStorage.get_url\<close> and \<open>OSSStorage.get_url\<close>.\<close>

fun get_url :: "storage_backend \<Rightarrow> string \<Rightarrow> string" where
  "get_url (MinioStorage endpoint bucket secure) object_name =
     (if secure then ''https'' else ''http'') @ ''://'' @ endpoint @ ''/'' @ object_name"
| "get_url (OSSStorage endpoint bucket_name) object_name =
     ''https://'' @ bucket_name @ ''.'' @ endpoint @ ''/'' @ object_name"

text \<open>\<open>str.lower()\<close> on code points below 256.\<close>

definition lower_char :: "char \<Rightarrow> char" where
  "lower_char c = (let n = of_char c :: nat in
     if (65 \<le> n \<and> n \<le> 90) \<or> (192 \<le> n \<and> n \<le> 222 \<and> n \<noteq> 215)
     then char_of (n + 32) else c)"

definition lower :: "string \<Rightarrow> string" where
  "lower s = map lower_char s"

text \<open>\<open>os.getenv(key, default)\<close> on the process environment, a map from names to values.\<close>

definition getenv :: "(string \<rightharpoonup> string) \<Rightarrow> string \<Rightarrow> string \<Rightarrow> string" where
  "getenv environ key dflt = (case environ key of None \<Rightarrow> dflt | Some v \<Rightarrow> v)"

text \<open>
  \<open>create_storage_backend\<close>. \<open>ctor_ok b\<close> says that constructing \<open>b\<close> (importing the
  client library and creating the client) returns normally; when it raises, one of the
  two \<open>except\<close> clauses returns \<open>None\<close>. \<open>all([...])\<close> on strings holds when none is empty.
\<close>

definition create_storage_backend ::
  "(storage_backend \<Rightarrow> bool) \<Rightarrow> (string \<rightharpoonup> string) \<Rightarrow> storage_backend option" where
  "create_storage_backend ctor_ok environ =
     (let storage_type = lower (getenv environ ''STORAGE_TYPE'' ''minio'') in
      if storage_type \<in> set [''minio'', ''cos''] then
        (let endpoint = getenv environ ''MINIO_ENDPOINT'' [];
             access_key = getenv environ ''MINIO_ACCESS_KEY'' [];
             secret_key = getenv environ ''MINIO_SECRET_KEY'' [];
             bucket = getenv environ ''MINIO_BUCKET'' [];
             secure = (lower (getenv environ ''MINIO_SECURE'' ''true'') = ''true'') in
         if \<not> list_all (\<lambda>v. v \<noteq> []) [endpoint, access_key, secret_key, bucket] then None
         else if ctor_ok (MinioStorage endpoint bucket secure)
           then Some (MinioStorage endpoint bucket secure) else None)
      else if storage_type = ''oss'' then
        (let endpoint = getenv environ ''OSS_ENDPOINT'' [];
             access_key = getenv environ ''OSS_ACCESS_KEY'' [];
             secret_key = getenv environ ''OSS_SECRET_KEY'' [];
             bucket = getenv environ ''OSS_BUCKET'' [] in
         if \<not> list_all (\<lambda>v. v \<noteq> []) [endpoint, access_key, secret_key, bucket] then None
         else if ctor_ok (OSSStorage endpoint bucket)
           then Some (OSSStorage endpoint bucket) else None)
      else None)"

section \<open>Paths\<close>

text \<open>\<open>s.split(d)\<close> for a one-character separator.\<close>

fun split_char :: "char \<Rightarrow> string \<Rightarrow> string list" where
  "split_char d [] = [[]]"
| "split_char d (c # cs) =
     (if c = d then [] # split_char d cs
      else (case split_char d cs of [] \<Rightarrow> [[c]] | r # rs \<Rightarrow> (c # r) # rs))"

text \<open>
  \<open>Path(p).name\<close> on a POSIX path: the last component, where empty components and
  \<open>.\<close> components are dropped when the path is parsed; the empty string when nothing
  is left.
\<close>

definition path_name :: "string \<Rightarrow> string" where
  "path_name p =
     (case rev (filter (\<lambda>c. c \<noteq> [] \<and> c \<noteq> ''.'') (split_char CHR ''/'' p)) of
        [] \<Rightarrow> [] | n # _ \<Rightarrow> n)"

text \<open>
  \<open>Path(p).suffix\<close>: with \<open>i = name.rfind('.')\<close>, the text \<open>name[i:]\<close> when
  \<open>0 < i < len(name) - 1\<close>, else the empty string.
\<close>

definition path_suffix :: "string \<Rightarrow> string" where
  "path_suffix p =
     (let name = path_name p;
          after = rev (takeWhile (\<lambda>c. c \<noteq> CHR ''.'') (rev name)) in
      if CHR ''.'' \<in> set name \<and> after \<noteq> [] \<and> length after + 1 < length name
      then CHR ''.'' # after else [])"

text \<open>
  \<open>str(Path(d) / n)\<close> for the text \<open>d\<close> of a path and a \<open>name\<close> without
  separators: joining to the current directory \<open>.\<close> gives the name alone, and a
  root, which ends in \<open>/\<close>, takes no second separator.
\<close>

definition joinpath :: "string \<Rightarrow> string \<Rightarrow> string" where
  "joinpath d n =
     (if n = [] then d
      else if d = ''.'' then n
      else if endswith d ''/'' then d @ n
      else d @ ''/'' @ n)"

section \<open>Forward relocation\<close>

text \<open>A raised Python exception, with its message.\<close>

datatype exn = Exn string

text \<open>
  What \<open>process_markdown_images\<close> reads from outside:
  \<^item> \<open>path_exists p\<close> is \<open>Path(p).exists()\<close>, which answers or raises (an \<open>OSError\<close>
    other than "not found");
  \<^item> \<open>uuid4 k\<close> is the text of the \<open>k\<close>-th \<open>uuid.uuid4()\<close> of the call;
  \<^item> \<open>put_ok k local_path object_name\<close> says that the \<open>k\<close>-th
    \<open>storage_backend.upload_file\<close> of the call returns normally (else it raises).
\<close>

record upload_env =
  path_exists :: "string \<Rightarrow> exn + bool"
  uuid4 :: "nat \<Rightarrow> string"
  put_ok :: "nat \<Rightarrow> string \<Rightarrow> string \<Rightarrow> bool"

text \<open>
  The effect of the call on the object store is kept as a log: one entry
  \<open>(local path, object name, stored)\<close> for each \<open>upload_file\<close> call, in order.
\<close>

type_synonym upload_log = "(string \<times> string \<times> bool) list"

text \<open>\<open>match.group(0)\<close> of a match of \<open>img_pattern\<close> with the two groups given.\<close>

definition md_image :: "string \<Rightarrow> string \<Rightarrow> string" where
  "md_image alt_text url = ''!['' @ alt_text @ '']('' @ url @ '')''"

definition img_tag :: "string \<Rightarrow> string \<Rightarrow> string" where
  "img_tag url alt_text = ''<img src=\"'' @ url @ ''\" alt=\"'' @ alt_text @ ''\">''"

text \<open>
  The callback \<open>replace_image\<close>: the replacement text and the new log, or the
  exception that leaves the callback (only \<open>exists()\<close> can raise outside the inner
  \<open>try\<close>).
\<close>

definition replace_image ::
  "upload_env \<Rightarrow> storage_backend \<Rightarrow> string \<Rightarrow> string \<times> string \<Rightarrow> upload_log
     \<Rightarrow> (exn + string) \<times> upload_log" where
  "replace_image env backend image_dir m log =
     (let alt_text = fst m; image_path = snd m;
          full_image_path = joinpath image_dir (path_name image_path) in
      case path_exists env full_image_path of
        Inl e \<Rightarrow> (Inl e, log)
      | Inr False \<Rightarrow> (Inr (md_image alt_text image_path), log)
      | Inr True \<Rightarrow>
          (let file_extension = path_suffix full_image_path;
               new_filename = uuid4 env (length log) @ file_extension;
               object_name = ''images/'' @ new_filename in
           if put_ok env (length log) full_image_path object_name
           then (Inr (img_tag (get_url backend object_name) alt_text),
                 log @ [(full_image_path, object_name, True)])
           else (Inr (md_image alt_text image_path),
                 log @ [(full_image_path, object_name, False)])))"

text \<open>
  \<open>re.sub(img_pattern, repl, s)\<close> with a callback that threads a state: text outside
  the matches is copied, each match is replaced by the callback's text, and an
  exception of the callback ends the substitution.
\<close>

function re_sub_md ::
  "(string \<times> string \<Rightarrow> 's \<Rightarrow> (exn + string) \<times> 's) \<Rightarrow> string \<Rightarrow> 's \<Rightarrow> (exn + string) \<times> 's" where
  "re_sub_md repl s st =
     (case match_md s of
        Some (alt_text, url, r) \<Rightarrow>
          (case repl (alt_text, url) st of
             (Inl e, st1) \<Rightarrow> (Inl e, st1)
           | (Inr t, st1) \<Rightarrow>
               (case re_sub_md repl r st1 of
                  (Inl e, st2) \<Rightarrow> (Inl e, st2)
                | (Inr out, st2) \<Rightarrow> (Inr (t @ out), st2)))
      | None \<Rightarrow>
          (case s of
             [] \<Rightarrow> (Inr [], st)
           | c # cs \<Rightarrow>
               (case re_sub_md repl cs st of
                  (Inl e, st2) \<Rightarrow> (Inl e, st2)
                | (Inr out, st2) \<Rightarrow> (Inr (c # out), st2))))"
  by pat_completeness auto
termination
  by (relation "measure (\<lambda>(repl, s, st). length s)") (auto simp: match_md_shorter)

declare re_sub_md.simps [simp del]

text \<open>
  \<open>process_markdown_images\<close>, with the module's \<open>storage_backend\<close> as an argument:
  the returned text and the uploads made.
\<close>

definition process_markdown_images ::
  "upload_env \<Rightarrow> storage_backend option \<Rightarrow> string \<Rightarrow> string \<Rightarrow> bool \<Rightarrow> string \<times> upload_log" where
  "process_markdown_images env storage md_content image_dir upload_images =
     (if \<not> upload_images then (md_content, [])
      else (case storage of
              None \<Rightarrow> (md_content, [])
            | Some backend \<Rightarrow>
                (case re_sub_md (replace_image env backend image_dir) md_content [] of
                   (Inl e, log) \<Rightarrow> (md_content, log)
                 | (Inr new_content, log) \<Rightarrow> (new_content, log))))"

section \<open>Missing backend and atomicity of the image step\<close>

text \<open>
  The settings \<open>create_storage_backend\<close> requires for a storage type, and what it
  means for one to be missing: the variable is unset or set to the empty string.
\<close>

definition required_settings :: "string \<Rightarrow> string list" where
  "required_settings storage_type =
     (if storage_type = ''oss''
      then [''OSS_ENDPOINT'', ''OSS_ACCESS_KEY'', ''OSS_SECRET_KEY'', ''OSS_BUCKET'']
      else [''MINIO_ENDPOINT'', ''MINIO_ACCESS_KEY'', ''MINIO_SECRET_KEY'', ''MINIO_BUCKET''])"

definition setting_missing :: "(string \<rightharpoonup> string) \<Rightarrow> string \<Rightarrow> bool" where
  "setting_missing environ key = (environ key = None \<or> environ key = Some [])"

text \<open>An environment for the examples: the third file cannot be examined.\<close>

definition example_env :: upload_env where
  "example_env =
     \<lparr>path_exists = (\<lambda>p. if p = ''out/images/c.png'' then Inl (Exn ''Permission denied'')
                          else Inr (p \<noteq> ''out/images/missing.png'')),
      uuid4 = (\<lambda>k. replicate (Suc k) CHR ''u''),
      put_ok = (\<lambda>k p n. k \<noteq> 1)\<rparr>"

definition example_backend :: storage_backend where
  "example_backend = OSSStorage ''oss-cn-shanghai.aliyuncs.com'' ''docs''"

lemma getenv_missing: "setting_missing environ key \<Longrightarrow> getenv environ key [] = []"
  by (auto simp: setting_missing_def getenv_def)

text \<open>
  Claim C9. When a required setting of the selected storage type is missing, or the
  storage type is none of minio, cos and oss, \<open>create_storage_backend\<close> returns
  \<open>None\<close>; and with that result a request with \<open>upload_images = True\<close> gets its markup
  back unchanged, with no upload made and no error.
\<close>

theorem missing_backend_disables_upload:
  assumes "storage_type = lower (getenv environ ''STORAGE_TYPE'' ''minio'')"
    and "(\<exists>key \<in> set (required_settings storage_type). setting_missing environ key)
         \<or> storage_type \<notin> set [''minio'', ''cos'', ''oss'']"
  shows "create_storage_backend ctor_ok environ = None
    \<and> process_markdown_images env (create_storage_backend ctor_ok environ)
          md_content image_dir True = (md_content, [])"
proof -
  have none: "create_storage_backend ctor_ok environ = None"
    using assms
    by (auto simp: create_storage_backend_def Let_def required_settings_def
        dest: getenv_missing)
  then show ?thesis by (simp add: process_markdown_images_def)
qed

theorem missing_backend_disables_upload_witness:
  "create_storage_backend (\<lambda>b. True)
     [''STORAGE_TYPE'' \<mapsto> ''OSS'', ''OSS_ENDPOINT'' \<mapsto> ''oss-cn-shanghai.aliyuncs.com'',
      ''OSS_ACCESS_KEY'' \<mapsto> ''id'', ''OSS_SECRET_KEY'' \<mapsto> ''secret''] = None
   \<and> process_markdown_images example_env
       (create_storage_backend (\<lambda>b. True)
         [''STORAGE_TYPE'' \<mapsto> ''OSS'', ''OSS_ENDPOINT'' \<mapsto> ''oss-cn-shanghai.aliyuncs.com'',
          ''OSS_ACCESS_KEY'' \<mapsto> ''id'', ''OSS_SECRET_KEY'' \<mapsto> ''secret''])
       ''![a](images/a.png)'' ''out/images'' True = (''![a](images/a.png)'', [])"
proof -
  let ?environ = "[''STORAGE_TYPE'' \<mapsto> ''OSS'',
      ''OSS_ENDPOINT'' \<mapsto> ''oss-cn-shanghai.aliyuncs.com'',
      ''OSS_ACCESS_KEY'' \<mapsto> ''id'', ''OSS_SECRET_KEY'' \<mapsto> ''secret'']"
  have t: "''oss'' = lower (getenv ?environ ''STORAGE_TYPE'' ''minio'')"
    by code_simp
  have m: "(\<exists>key \<in> set (required_settings ''oss''). setting_missing ?environ key)
         \<or> ''oss'' \<notin> set [''minio'', ''cos'', ''oss'']"
    by (simp add: required_settings_def setting_missing_def)
  show ?thesis
    using missing_backend_disables_upload [OF t m, where ctor_ok = "\<lambda>b. True"
        and env = example_env and md_content = "''![a](images/a.png)''"
        and image_dir = "''out/images''"]
    by blast
qed

text \<open>
  Claim C10. The image step returns either its input or the completely rewritten
  text: with \<open>upload_images = False\<close> the input comes back unchanged, and when an
  exception leaves the substitution pass the input comes back unchanged, whatever had
  been rewritten before the exception.
\<close>

theorem image_step_atomic:
  "fst (process_markdown_images env storage md_content image_dir False) = md_content
   \<and> (\<forall>backend e log.
        re_sub_md (replace_image env backend image_dir) md_content [] = (Inl e, log)
        \<longrightarrow> fst (process_markdown_images env (Some backend) md_content image_dir True)
            = md_content)"
  by (simp add: process_markdown_images_def)

theorem image_step_atomic_witness:
  "re_sub_md (replace_image example_env example_backend ''out/images'')
      ''![a](images/a.png) ![c](images/c.png)'' []
     = (Inl (Exn ''Permission denied''), [(''out/images/a.png'', ''images/u.png'', True)])
   \<and> fst (process_markdown_images example_env (Some example_backend)
        ''![a](images/a.png) ![c](images/c.png)'' ''out/images'' True)
     = ''![a](images/a.png) ![c](images/c.png)''"
proof -
  have h: "re_sub_md (replace_image example_env example_backend ''out/images'')
      ''![a](images/a.png) ![c](images/c.png)'' []
     = (Inl (Exn ''Permission denied''), [(''out/images/a.png'', ''images/u.png'', True)])"
    by code_simp
  show ?thesis
    using h image_step_atomic [of example_env "Some example_backend"
        "''![a](images/a.png) ![c](images/c.png)''" "''out/images''"]
    by blast
qed

section \<open>URLs\<close>

text \<open>
  \<open>urllib.parse.urlparse\<close> (CPython 3.11.4 and later) as far as the code reads its result: the
  scheme, the network location and the path. The steps are those of \<open>urlsplit\<close>:
  leading control characters and spaces are stripped, tab, carriage return and line
  feed are removed, a scheme is split off at the first \<open>:\<close>, after \<open>//\<close> the network
  location runs to the first of \<open>/ ? #\<close>, the fragment and the query are cut from the
  rest, and for a scheme that uses parameters the last path segment is cut at its first
  \<open>;\<close>. A network location with only one of \<open>[\<close> and \<open>]\<close> raises \<open>ValueError\<close>, and
  so does one whose bracketed host is not an IPv6 or IPvFuture literal. On code points
  below 256 the check of the network location under NFKC never raises.
\<close>

definition is_ascii_alpha :: "char \<Rightarrow> bool" where
  "is_ascii_alpha c = (let n = of_char c :: nat in
     (65 \<le> n \<and> n \<le> 90) \<or> (97 \<le> n \<and> n \<le> 122))"

definition scheme_char :: "char \<Rightarrow> bool" where
  "scheme_char c = (let n = of_char c :: nat in
     is_ascii_alpha c \<or> (48 \<le> n \<and> n \<le> 57) \<or> c \<in> set ''+-.'')"

definition uses_params :: "string list" where
  "uses_params = ['''', ''ftp'', ''hdl'', ''prospero'', ''http'', ''imap'', ''https'',
     ''shttp'', ''rtsp'', ''rtsps'', ''rtspu'', ''sip'', ''sips'', ''mms'', ''sftp'',
     ''tel'']"

text \<open>\<open>s.partition(c)\<close> without the separator, and whether the separator was found.\<close>

definition partition_char :: "char \<Rightarrow> string \<Rightarrow> string \<times> bool \<times> string" where
  "partition_char c s =
     (takeWhile (\<lambda>x. x \<noteq> c) s, c \<in> set s, drop 1 (dropWhile (\<lambda>x. x \<noteq> c) s))"

definition split_scheme :: "string \<Rightarrow> string \<times> string" where
  "split_scheme url =
     (case partition_char CHR '':'' url of (pre, found, rest) \<Rightarrow>
        (case pre of
           [] \<Rightarrow> ([], url)
         | c # cs \<Rightarrow>
             if found \<and> is_ascii_alpha c \<and> list_all scheme_char pre
             then (lower pre, rest) else ([], url)))"

text \<open>The text after the last \<open>/\<close> (the whole text when there is none).\<close>

definition last_segment :: "string \<Rightarrow> string" where
  "last_segment p = rev (takeWhile (\<lambda>c. c \<noteq> CHR ''/'') (rev p))"

definition splitparams :: "string \<Rightarrow> string" where
  "splitparams url =
     take (length url - length (last_segment url)) url
     @ takeWhile (\<lambda>c. c \<noteq> CHR '';'') (last_segment url)"

definition clean_url :: "string \<Rightarrow> string" where
  "clean_url url =
     filter (\<lambda>c. (of_char c :: nat) \<notin> {9, 10, 13})
       (dropWhile (\<lambda>c. (of_char c :: nat) \<le> 32) url)"

definition split_netloc :: "string \<Rightarrow> string \<times> string" where
  "split_netloc url =
     (if startswith url ''//''
      then (takeWhile (\<lambda>c. c \<notin> set ''/?#'') (drop 2 url),
            dropWhile (\<lambda>c. c \<notin> set ''/?#'') (drop 2 url))
      else ([], url))"

definition url_path :: "string \<Rightarrow> string \<Rightarrow> string" where
  "url_path scheme url =
     (let url1 = takeWhile (\<lambda>c. c \<noteq> CHR ''#'') url;
          url2 = takeWhile (\<lambda>c. c \<noteq> CHR ''?'') url1 in
      if scheme \<in> set uses_params \<and> CHR '';'' \<in> set url2
      then splitparams url2 else url2)"

text \<open>
  The check of a bracketed host, \<open>_check_bracketed_host\<close>: a host that starts with
  \<open>v\<close> must match \<open>v[a-fA-F0-9]+\..+\<close>; any other host must be accepted by
  \<open>ipaddress.ip_address\<close> as an IPv6 address (an IPv4 address in brackets is
  refused). The definitions follow \<open>ipaddress.py\<close>: \<open>_parse_octet\<close>,
  \<open>IPv4Address\<close>, \<open>_parse_hextet\<close>, \<open>_split_scope_id\<close> and
  \<open>_ip_int_from_string\<close>, keeping only whether the text is accepted.
\<close>

definition is_digit :: "char \<Rightarrow> bool" where
  "is_digit c = (let n = of_char c :: nat in 48 \<le> n \<and> n \<le> 57)"

definition is_hex_digit :: "char \<Rightarrow> bool" where
  "is_hex_digit c = (let n = of_char c :: nat in
     (48 \<le> n \<and> n \<le> 57) \<or> (65 \<le> n \<and> n \<le> 70) \<or> (97 \<le> n \<and> n \<le> 102))"

definition digits_value :: "string \<Rightarrow> nat" where
  "digits_value s = foldl (\<lambda>a c. 10 * a + (of_char c - 48)) 0 s"

definition octet_ok :: "string \<Rightarrow> bool" where
  "octet_ok s =
     (s \<noteq> [] \<and> list_all is_digit s \<and> length s \<le> 3
      \<and> (s = ''0'' \<or> \<not> startswith s ''0'') \<and> digits_value s \<le> 255)"

definition ipv4_ok :: "string \<Rightarrow> bool" where
  "ipv4_ok s =
     (CHR ''/'' \<notin> set s \<and> s \<noteq> []
      \<and> length (split_char CHR ''.'' s) = 4 \<and> list_all octet_ok (split_char CHR ''.'' s))"

definition hextet_ok :: "string \<Rightarrow> bool" where
  "hextet_ok h = (h \<noteq> [] \<and> list_all is_hex_digit h \<and> length h \<le> 4)"

text \<open>
  The parts of an address between its colons, after an IPv4 suffix has been replaced
  by its two hextets (written \<open>0\<close> here: only their being hextets matters).
\<close>

definition ipv6_parts_ok :: "string list \<Rightarrow> bool" where
  "ipv6_parts_ok parts =
     (length parts \<le> 9 \<and>
      (case filter (\<lambda>i. parts ! i = []) [1..<length parts - 1] of
         [] \<Rightarrow>
           length parts = 8 \<and> list_all hextet_ok parts
       | [skip_index] \<Rightarrow>
           (let parts_hi = (if parts ! 0 = [] then skip_index - 1 else skip_index);
                parts_lo = (if last parts = [] then length parts - skip_index - 2
                            else length parts - skip_index - 1) in
            (parts ! 0 = [] \<longrightarrow> parts_hi = 0)
            \<and> (last parts = [] \<longrightarrow> parts_lo = 0)
            \<and> parts_hi + parts_lo < 8
            \<and> list_all hextet_ok (take parts_hi parts)
            \<and> list_all hextet_ok (drop (length parts - parts_lo) parts))
       | _ \<Rightarrow> False))"

definition ipv6_ok :: "string \<Rightarrow> bool" where
  "ipv6_ok s =
     (case partition_char CHR ''%'' s of (addr, has_scope, scope_id) \<Rightarrow>
        CHR ''/'' \<notin> set s
        \<and> (has_scope \<longrightarrow> scope_id \<noteq> [] \<and> CHR ''%'' \<notin> set scope_id)
        \<and> addr \<noteq> []
        \<and> (let parts = split_char CHR '':'' addr in
             length parts \<ge> 3
             \<and> (if CHR ''.'' \<in> set (last parts)
                  then ipv4_ok (last parts) \<and> ipv6_parts_ok (butlast parts @ [''0'', ''0''])
                  else ipv6_parts_ok parts)))"

definition ipvfuture_ok :: "string \<Rightarrow> bool" where
  "ipvfuture_ok h =
     (case lit ''v'' h of
        None \<Rightarrow> False
      | Some r \<Rightarrow>
          takeWhile is_hex_digit r \<noteq> []
          \<and> (case lit ''.'' (dropWhile is_hex_digit r) of
                None \<Rightarrow> False
              | Some t \<Rightarrow> t \<noteq> [] \<and> CHR 0x0A \<notin> set t))"

definition bracketed_host_error :: "string \<Rightarrow> exn option" where
  "bracketed_host_error h =
     (if startswith h ''v''
      then (if ipvfuture_ok h then None else Some (Exn ''IPvFuture address is invalid''))
      else if ipv4_ok h then Some (Exn ''An IPv4 address cannot be in brackets'')
      else if ipv6_ok h then None
      else Some (Exn ''does not appear to be an IPv4 or IPv6 address''))"

definition urlparse :: "string \<Rightarrow> exn + string \<times> string \<times> string" where
  "urlparse url =
     (case split_scheme (clean_url url) of (scheme, url1) \<Rightarrow>
        (case split_netloc url1 of (netloc, url2) \<Rightarrow>
           if (CHR ''['' \<in> set netloc) \<noteq> (CHR '']'' \<in> set netloc)
           then Inl (Exn ''Invalid IPv6 URL'')
           else
             (case (if CHR ''['' \<in> set netloc
                    then bracketed_host_error
                           (takeWhile (\<lambda>c. c \<noteq> CHR '']'')
                              (drop 1 (dropWhile (\<lambda>c. c \<noteq> CHR ''['') netloc)))
                    else None) of
                Some e \<Rightarrow> Inl e
              | None \<Rightarrow> Inr (scheme, netloc, url_path scheme url2))))"

text \<open>
  The \<open>hostname\<close> property of a parse result, from its network location: the text
  after the last \<open>@\<close>, inside brackets when there are any and up to the first \<open>:\<close>
  otherwise, in lower case up to a \<open>%\<close>; \<open>None\<close> when it is empty.
\<close>

definition hostname :: "string \<Rightarrow> string option" where
  "hostname netloc =
     (let hostinfo = rev (takeWhile (\<lambda>c. c \<noteq> CHR ''@'') (rev netloc));
          h = (case partition_char CHR ''['' hostinfo of
                 (_, True, bracketed) \<Rightarrow> takeWhile (\<lambda>c. c \<noteq> CHR '']'') bracketed
               | (_, False, _) \<Rightarrow> takeWhile (\<lambda>c. c \<noteq> CHR '':'') hostinfo) in
      if h = [] then None
      else (case partition_char CHR ''%'' h of
              (host, found, zone) \<Rightarrow>
                Some (lower host @ (if found then ''%'' else []) @ zone)))"

text \<open>\<open>urlparse(url).hostname or ''\<close>.\<close>

definition url_hostname :: "string \<Rightarrow> exn + string" where
  "url_hostname url =
     (case urlparse url of
        Inl e \<Rightarrow> Inl e
      | Inr (scheme, netloc, path) \<Rightarrow>
          Inr (case hostname netloc of None \<Rightarrow> [] | Some h \<Rightarrow> h))"

text \<open>\<open>detect_storage_type\<close> of the two client scripts.\<close>

definition detect_storage_type :: "string \<Rightarrow> exn + string" where
  "detect_storage_type url =
     (case url_hostname url of
        Inl e \<Rightarrow> Inl e
      | Inr host \<Rightarrow>
          Inr (if contains host ''aliyuncs.com'' \<or> contains host ''oss-'' then ''oss''
               else if contains host ''myqcloud.com'' \<or> contains host ''.cos.'' then ''cos''
               else ''unknown''))"

text \<open>\<open>s.split(sep)\<close> for a non-empty separator.\<close>

function split_str :: "string \<Rightarrow> string \<Rightarrow> string list" where
  "split_str sep s =
     (if sep = [] then [s]
      else if s = [] then [[]]
      else if startswith s sep then [] # split_str sep (drop (length sep) s)
      else (case split_str sep (tl s) of
              [] \<Rightarrow> [[hd s]] | r # rs \<Rightarrow> (hd s # r) # rs))"
  by pat_completeness auto
termination
  by (relation "measure (\<lambda>(sep, s). length s)") auto

declare split_str.simps [simp del]

text \<open>
  \<open>parse_oss_url\<close>: \<open>(bucket, endpoint, object_key)\<close>, or three times \<open>None\<close> when the
  host name has no \<open>.oss-\<close>.
\<close>

definition parse_oss_url ::
  "string \<Rightarrow> exn + (string option \<times> string option \<times> string option)" where
  "parse_oss_url url =
     (case urlparse url of
        Inl e \<Rightarrow> Inl e
      | Inr (scheme, netloc, path) \<Rightarrow>
          (let host = (case hostname netloc of None \<Rightarrow> [] | Some h \<Rightarrow> h) in
           if contains host ''.oss-'' then
             (case split_str ''.oss-'' host of
                bucket # p1 # _ \<Rightarrow>
                  Inr (Some bucket, Some (''oss-'' @ p1),
                       Some (dropWhile (\<lambda>c. c = CHR ''/'') path))
              | _ \<Rightarrow> Inl (Exn ''list index out of range''))
           else Inr (None, None, None)))"

section \<open>Reverse relocation\<close>

text \<open>
  \<open>s.replace(old, new)\<close>: the occurrences of \<open>old\<close> are found from left to right
  without overlap; an empty \<open>old\<close> matches before every character and at the end.
\<close>

function replace :: "string \<Rightarrow> string \<Rightarrow> string \<Rightarrow> string" where
  "replace old new s =
     (if old = [] then new @ concat (map (\<lambda>c. c # new) s)
      else if s = [] then []
      else if startswith s old then new @ replace old new (drop (length old) s)
      else hd s # replace old new (tl s))"
  by pat_completeness auto
termination
  by (relation "measure (\<lambda>(old, new, s). length s)") auto

declare replace.simps [simp del]

text \<open>The decimal digits of a number and the format \<open>:03d\<close>.\<close>

fun decimal :: "nat \<Rightarrow> string" where
  "decimal n =
     (if n < 10 then [char_of (48 + n)]
      else decimal (n div 10) @ [char_of (48 + n mod 10)])"

declare decimal.simps [simp del]

definition format_03d :: "nat \<Rightarrow> string" where
  "format_03d n = replicate (3 - length (decimal n)) CHR ''0'' @ decimal n"

text \<open>How one download ended.\<close>

datatype outcome = Downloaded | Failed | Raised exn

text \<open>
  What \<open>download_images_from_storage\<close> (and its copy \<open>download_images_to_local\<close>)
  reads from outside. The first argument of the two fetch functions is the index of
  the image in the extracted list, so that the same URL may fare differently twice.
  \<^item> \<open>mkdir_error\<close>: the exception of \<open>images_dir.mkdir(parents=True,
    exist_ok=True)\<close>, if it raises;
  \<^item> \<open>oss2_available\<close>: \<open>import oss2\<close> succeeds;
  \<^item> \<open>environ\<close>: the process environment, read for the OSS credentials;
  \<^item> \<open>oss_fetch k endpoint bucket key local_path\<close>: \<open>bucket.get_object_to_file\<close>,
    \<open>Downloaded\<close> when it returns and \<open>Raised\<close> when it raises;
  \<^item> \<open>http_fetch k url local_path\<close>: the \<open>session.get\<close> block, \<open>Downloaded\<close> when
    the status is 200 and the file is written, \<open>Failed\<close> for another status and
    \<open>Raised\<close> when the request or the write raises.
\<close>

record download_env =
  mkdir_error :: "exn option"
  oss2_available :: bool
  environ :: "string \<rightharpoonup> string"
  oss_fetch :: "nat \<Rightarrow> string \<Rightarrow> string \<Rightarrow> string \<Rightarrow> string \<Rightarrow> outcome"
  http_fetch :: "nat \<Rightarrow> string \<Rightarrow> string \<Rightarrow> outcome"

text \<open>\<open>download_from_oss\<close>: a boolean, or the exception of \<open>parse_oss_url\<close>.\<close>

definition download_from_oss :: "download_env \<Rightarrow> nat \<Rightarrow> string \<Rightarrow> string \<Rightarrow> exn + bool" where
  "download_from_oss env k url local_path =
     (if \<not> oss2_available env then Inr False
      else (case parse_oss_url url of
              Inl e \<Rightarrow> Inl e
            | Inr (Some bucket_name, Some endpoint, Some object_key) \<Rightarrow>
                if bucket_name = [] \<or> endpoint = [] \<or> object_key = [] then Inr False
                else if getenv (environ env) ''OSS_ACCESS_KEY'' [] = []
                        \<or> getenv (environ env) ''OSS_SECRET_KEY'' [] = [] then Inr False
                else Inr (oss_fetch env k endpoint bucket_name object_key local_path
                          = Downloaded)
            | Inr _ \<Rightarrow> Inr False))"

text \<open>The local file name for a URL, given the number of downloads so far.\<close>

definition local_filename :: "string \<Rightarrow> nat \<Rightarrow> exn + string" where
  "local_filename url downloaded_count =
     (case urlparse url of
        Inl e \<Rightarrow> Inl e
      | Inr (scheme, netloc, path) \<Rightarrow>
          (let filename = path_name path in
           if filename = [] \<or> CHR ''?'' \<in> set filename then
             (let ext = (if endswith url ''.jpg'' \<or> endswith url ''.jpeg'' then ''.jpg''
                         else if endswith url ''.png'' then ''.png''
                         else if endswith url ''.gif'' then ''.gif''
                         else ''.png'') in
              Inr (''image_'' @ format_03d downloaded_count @ ext))
           else Inr filename))"

text \<open>
  The body of the loop for one image: \<open>Inr (Some filename)\<close> when the image was
  downloaded, \<open>Inr None\<close> when it was not, \<open>Inl e\<close> when the body raised (the
  \<open>except\<close> of the loop then prints \<open>e\<close> and goes on).
\<close>

definition download_one ::
  "download_env \<Rightarrow> string \<Rightarrow> nat \<Rightarrow> string \<Rightarrow> nat \<Rightarrow> exn + string option" where
  "download_one env images_dir k url downloaded_count =
     (case detect_storage_type url of
        Inl e \<Rightarrow> Inl e
      | Inr storage_type \<Rightarrow>
          (case local_filename url downloaded_count of
             Inl e \<Rightarrow> Inl e
           | Inr filename \<Rightarrow>
               (let image_path = joinpath images_dir filename in
                if storage_type = ''oss'' then
                  (case download_from_oss env k url image_path of
                     Inl e \<Rightarrow> Inl e
                   | Inr success \<Rightarrow> Inr (if success then Some filename else None))
                else
                  (case http_fetch env k url image_path of
                     Raised e \<Rightarrow> Inl e
                   | Failed \<Rightarrow> Inr None
                   | Downloaded \<Rightarrow> Inr (Some filename)))))"

text \<open>
  The state of the loop: the text so far, the counter, and a log of the downloads
  made, \<open>(url, local file name)\<close> in order.
\<close>

record download_state =
  updated_content :: string
  downloaded_count :: nat
  downloads :: "(string \<times> string) list"

definition rewrite_links :: "string \<Rightarrow> string \<Rightarrow> string \<Rightarrow> string" where
  "rewrite_links url local_path content =
     replace ('']('' @ url @ '')'') ('']('' @ local_path @ '')'')
       (replace (''<img src=\"'' @ url @ ''\"'') (''<img src=\"'' @ local_path @ ''\"'') content)"

fun download_loop ::
  "download_env \<Rightarrow> string \<Rightarrow> nat \<Rightarrow> (string \<times> string) list \<Rightarrow> download_state
     \<Rightarrow> download_state" where
  "download_loop env images_dir k [] st = st"
| "download_loop env images_dir k ((alt_text, url) # rest) st =
     download_loop env images_dir (Suc k) rest
       (case download_one env images_dir k url (downloaded_count st) of
          Inr (Some filename) \<Rightarrow>
            st\<lparr>updated_content :=
                  rewrite_links url (''images/'' @ filename) (updated_content st),
               downloaded_count := downloaded_count st + 1,
               downloads := downloads st @ [(url, filename)]\<rparr>
        | _ \<Rightarrow> st)"

text \<open>
  \<open>download_images_from_storage\<close>: the returned pair and the downloads made, or the
  exception of the first statement, the creation of the image directory, which no
  \<open>try\<close> encloses.
\<close>

definition download_images_from_storage ::
  "download_env \<Rightarrow> string \<Rightarrow> string \<Rightarrow> exn + (string \<times> nat) \<times> (string \<times> string) list" where
  "download_images_from_storage env md_content output_dir =
     (let images_dir = joinpath output_dir ''images'' in
      case mkdir_error env of
        Some e \<Rightarrow> Inl e
      | None \<Rightarrow>
          (let image_urls = extract_image_urls md_content in
           if image_urls = [] then Inr ((md_content, 0), [])
           else (let st = download_loop env images_dir 0 image_urls
                       \<lparr>updated_content = md_content, downloaded_count = 0, downloads = []\<rparr>
                 in Inr ((updated_content st, downloaded_count st), downloads st))))"

section \<open>Reverse relocation: the count and the text\<close>

text \<open>
  The images that are downloaded, as a list on its own: going through the extracted
  pairs in order, the \<open>k\<close>-th is kept with its file name when its download succeeds,
  where \<open>c\<close> counts the successes before it.
\<close>

fun successes ::
  "download_env \<Rightarrow> string \<Rightarrow> nat \<Rightarrow> (string \<times> string) list \<Rightarrow> nat \<Rightarrow> (string \<times> string) list" where
  "successes env images_dir k [] c = []"
| "successes env images_dir k ((alt_text, url) # rest) c =
     (case download_one env images_dir k url c of
        Inr (Some filename) \<Rightarrow> (url, filename) # successes env images_dir (Suc k) rest (Suc c)
      | _ \<Rightarrow> successes env images_dir (Suc k) rest c)"

text \<open>The text after the links of the given downloads have been rewritten, in order.\<close>

definition rewritten :: "string \<Rightarrow> (string \<times> string) list \<Rightarrow> string" where
  "rewritten content log =
     foldl (\<lambda>t (url, filename). rewrite_links url (''images/'' @ filename) t) content log"

text \<open>
  A download of \<open>url\<close> to the file \<open>filename\<close> of the image directory that some fetch
  of the environment completed.
\<close>

definition fetch_completed :: "download_env \<Rightarrow> string \<Rightarrow> string \<Rightarrow> string \<Rightarrow> bool" where
  "fetch_completed env images_dir url filename =
     (\<exists>k. http_fetch env k url (joinpath images_dir filename) = Downloaded
          \<or> (\<exists>endpoint bucket key.
                oss_fetch env k endpoint bucket key (joinpath images_dir filename)
                  = Downloaded))"

lemma download_from_oss_True:
  assumes "download_from_oss env k url local_path = Inr True"
  shows "\<exists>endpoint bucket key. oss_fetch env k endpoint bucket key local_path = Downloaded"
  using assms
  by (auto simp: download_from_oss_def split: if_splits sum.splits prod.splits option.splits)

lemma download_one_Some:
  assumes "download_one env images_dir k url c = Inr (Some filename)"
  shows "fetch_completed env images_dir url filename"
proof -
  from assms obtain t where t: "detect_storage_type url = Inr t"
    by (auto simp: download_one_def split: sum.splits)
  from assms t have f: "local_filename url c = Inr filename"
    by (auto simp: download_one_def Let_def split: sum.splits if_splits outcome.splits)
  show ?thesis
  proof (cases "t = ''oss''")
    case True
    with assms t f have "download_from_oss env k url (joinpath images_dir filename) = Inr True"
      by (auto simp: download_one_def Let_def split: sum.splits if_splits)
    from download_from_oss_True[OF this] show ?thesis
      unfolding fetch_completed_def by blast
  next
    case False
    with assms t f have "http_fetch env k url (joinpath images_dir filename) = Downloaded"
      by (auto simp: download_one_def Let_def split: outcome.splits)
    then show ?thesis unfolding fetch_completed_def by blast
  qed
qed

lemma download_one_no_fetch:
  assumes "\<forall>k url p. http_fetch env k url p \<noteq> Downloaded"
    and "\<forall>k endpoint bucket key p. oss_fetch env k endpoint bucket key p \<noteq> Downloaded"
  shows "download_one env images_dir k url c \<noteq> Inr (Some filename)"
proof
  assume "download_one env images_dir k url c = Inr (Some filename)"
  from download_one_Some[OF this] show False
    using assms unfolding fetch_completed_def by blast
qed

lemma download_loop_successes:
  "download_loop env d k urls st =
     st\<lparr>updated_content := rewritten (updated_content st) (successes env d k urls (downloaded_count st)),
        downloaded_count := downloaded_count st
           + length (successes env d k urls (downloaded_count st)),
        downloads := downloads st @ successes env d k urls (downloaded_count st)\<rparr>"
proof (induction urls arbitrary: k st)
  case Nil
  show ?case by (simp add: rewritten_def)
next
  case (Cons p urls)
  obtain alt_text url where p: "p = (alt_text, url)" by (cases p)
  show ?case
  proof (cases "download_one env d k url (downloaded_count st)")
    case (Inl e)
    then show ?thesis using Cons.IH[where k = "Suc k" and st = st] p by simp
  next
    case (Inr r)
    show ?thesis
    proof (cases r)
      case None
      then show ?thesis using Cons.IH[where k = "Suc k" and st = st] p Inr by simp
    next
      case (Some filename)
      let ?next = "st\<lparr>updated_content :=
                  rewrite_links url (''images/'' @ filename) (updated_content st),
               downloaded_count := downloaded_count st + 1,
               downloads := downloads st @ [(url, filename)]\<rparr>"
      have step: "download_loop env d k (p # urls) st = download_loop env d (Suc k) urls ?next"
        using p Inr Some by simp
      have succ: "successes env d k (p # urls) (downloaded_count st)
          = (url, filename) # successes env d (Suc k) urls (Suc (downloaded_count st))"
        using p Inr Some by simp
      show ?thesis
        unfolding step succ
        by (subst Cons.IH[where k = "Suc k" and st = ?next]) (simp add: rewritten_def)
    qed
  qed
qed

lemma successes_completed:
  "(url, filename) \<in> set (successes env d k urls c) \<Longrightarrow> fetch_completed env d url filename"
proof (induction urls arbitrary: k c)
  case Nil
  then show ?case by simp
next
  case (Cons p urls)
  obtain alt_text u where p: "p = (alt_text, u)" by (cases p)
  show ?case
  proof (cases "download_one env d k u c")
    case (Inl e)
    then show ?thesis using Cons p by simp
  next
    case (Inr r)
    show ?thesis
    proof (cases r)
      case None
      then show ?thesis using Cons p Inr by simp
    next
      case (Some f)
      then show ?thesis
        using Cons p Inr download_one_Some[of env d k u c f] by auto
    qed
  qed
qed

lemma successes_Nil_iff:
  "successes env d k urls c = []
     \<longleftrightarrow> (\<forall>j < length urls. \<forall>f. download_one env d (k + j) (snd (urls ! j)) c \<noteq> Inr (Some f))"
proof (induction urls arbitrary: k)
  case Nil
  show ?case by simp
next
  case (Cons p urls)
  obtain alt_text u where p: "p = (alt_text, u)" by (cases p)
  let ?P = "\<lambda>j. \<forall>f. download_one env d (k + j) (snd ((p # urls) ! j)) c \<noteq> Inr (Some f)"
  have shift: "(\<forall>j < length (p # urls). ?P j) \<longleftrightarrow> ?P 0 \<and> (\<forall>j < length urls. ?P (Suc j))"
    by (auto simp: less_Suc_eq_0_disj)
  have tail: "(\<forall>j < length urls. ?P (Suc j))
      \<longleftrightarrow> (\<forall>j < length urls. \<forall>f.
            download_one env d (Suc k + j) (snd (urls ! j)) c \<noteq> Inr (Some f))"
    by simp
  have head: "?P 0 \<longleftrightarrow> (\<forall>f. download_one env d k u c \<noteq> Inr (Some f))"
    using p by simp
  show ?case
  proof (cases "\<exists>f. download_one env d k u c = Inr (Some f)")
    case True
    then have "successes env d k (p # urls) c \<noteq> []" using p by auto
    then show ?thesis unfolding shift head using True by blast
  next
    case False
    then have "successes env d k (p # urls) c = successes env d (Suc k) urls c"
      using p by (auto split: sum.splits option.splits)
    then show ?thesis
      unfolding shift head tail using False Cons.IH[of "Suc k"] by simp
  qed
qed

text \<open>An environment in which no download succeeds.\<close>

definition failing_env :: download_env where
  "failing_env =
     \<lparr>mkdir_error = None,
      oss2_available = True,
      environ = [''OSS_ACCESS_KEY'' \<mapsto> ''id'', ''OSS_SECRET_KEY'' \<mapsto> ''secret''],
      oss_fetch = (\<lambda>k endpoint bucket key p. Raised (Exn ''NoSuchKey'')),
      http_fetch = (\<lambda>k url p. if k = 0 then Failed else Raised (Exn ''timeout''))\<rparr>"

text \<open>
  Claim C3. Reverse relocation raises only when the image directory cannot be
  created; otherwise it returns the text and a count. The count is the number of
  images whose download succeeded, each of them a fetch that completed, and the text
  is the input with the links of exactly those images rewritten. So when no image
  succeeds, because none was found or because no fetch completes, the count is zero
  and the text is the input, character for character; and when some image can be
  downloaded, the count is not zero.
\<close>

theorem reverse_relocation_count:
  "(case download_images_from_storage env md_content output_dir of
      Inl e \<Rightarrow> mkdir_error env = Some e
    | Inr ((text, n), log) \<Rightarrow>
        mkdir_error env = None
        \<and> log = successes env (joinpath output_dir ''images'') 0
                  (extract_image_urls md_content) 0
        \<and> n = length log
        \<and> text = rewritten md_content log
        \<and> (\<forall>(url, filename) \<in> set log.
              fetch_completed env (joinpath output_dir ''images'') url filename)
        \<and> (n = 0 \<longrightarrow> text = md_content)
        \<and> (extract_image_urls md_content = [] \<longrightarrow> n = 0)
        \<and> ((\<forall>k url p. http_fetch env k url p \<noteq> Downloaded)
             \<and> (\<forall>k endpoint bucket key p.
                   oss_fetch env k endpoint bucket key p \<noteq> Downloaded)
            \<longrightarrow> n = 0 \<and> text = md_content)
        \<and> ((\<exists>j < length (extract_image_urls md_content). \<exists>filename.
                download_one env (joinpath output_dir ''images'') j
                  (snd (extract_image_urls md_content ! j)) 0 = Inr (Some filename))
            \<longrightarrow> 0 < n))"
proof (cases "mkdir_error env")
  case (Some e)
  then show ?thesis by (simp add: download_images_from_storage_def)
next
  case None
  let ?d = "joinpath output_dir ''images''"
  let ?urls = "extract_image_urls md_content"
  let ?log = "successes env ?d 0 ?urls 0"
  let ?init = "\<lparr>updated_content = md_content, downloaded_count = 0, downloads = []\<rparr>"
  have loop: "download_loop env ?d 0 ?urls ?init
      = \<lparr>updated_content = rewritten md_content ?log, downloaded_count = length ?log,
         downloads = ?log\<rparr>"
    by (subst download_loop_successes) simp
  have r: "download_images_from_storage env md_content output_dir
             = Inr ((rewritten md_content ?log, length ?log), ?log)"
  proof (cases "?urls = []")
    case True
    then show ?thesis
      using None by (simp add: download_images_from_storage_def rewritten_def)
  next
    case False
    then show ?thesis
      using None loop by (simp add: download_images_from_storage_def Let_def)
  qed
  have c: "\<forall>(url, filename) \<in> set ?log. fetch_completed env ?d url filename"
    using successes_completed by fastforce
  have z: "length ?log = 0 \<longrightarrow> rewritten md_content ?log = md_content"
    by (simp add: rewritten_def)
  have e: "?urls = [] \<longrightarrow> length ?log = 0" by simp
  have nf: "length ?log = 0 \<and> rewritten md_content ?log = md_content"
    if "\<forall>k url p. http_fetch env k url p \<noteq> Downloaded"
      "\<forall>k endpoint bucket key p. oss_fetch env k endpoint bucket key p \<noteq> Downloaded"
  proof -
    have "?log = []"
      unfolding successes_Nil_iff using download_one_no_fetch[OF that] by blast
    then show ?thesis by (simp add: rewritten_def)
  qed
  have pos: "0 < length ?log"
    if "\<exists>j < length ?urls. \<exists>filename.
          download_one env ?d j (snd (?urls ! j)) 0 = Inr (Some filename)"
  proof -
    have "?log \<noteq> []" unfolding successes_Nil_iff using that by auto
    then show ?thesis by simp
  qed
  show ?thesis
    unfolding r using None c z e nf pos by simp
qed

theorem reverse_relocation_count_witness:
  "download_images_from_storage failing_env
       ''<img src=\"http://minio.local/b/p1.png\" alt=\"p1\"> ![p2](https://docs.oss-cn-shanghai.aliyuncs.com/images/p2.png)''
       ''out''
     = Inr ((''<img src=\"http://minio.local/b/p1.png\" alt=\"p1\"> ![p2](https://docs.oss-cn-shanghai.aliyuncs.com/images/p2.png)'', 0), [])"
proof -
  let ?md = "''<img src=\"http://minio.local/b/p1.png\" alt=\"p1\"> ![p2](https://docs.oss-cn-shanghai.aliyuncs.com/images/p2.png)''"
  have h: "\<forall>k url p. http_fetch failing_env k url p \<noteq> Downloaded"
    by (simp add: failing_env_def)
  have o: "\<forall>k endpoint bucket key p. oss_fetch failing_env k endpoint bucket key p \<noteq> Downloaded"
    by (simp add: failing_env_def)
  have m: "mkdir_error failing_env = None" by (simp add: failing_env_def)
  note T = reverse_relocation_count [where env = failing_env and md_content = "?md"
      and output_dir = "''out''"]
  show ?thesis
  proof (cases "download_images_from_storage failing_env ?md ''out''")
    case (Inl e)
    then show ?thesis using T m by simp
  next
    case (Inr r)
    obtain t n log where r: "r = ((t, n), log)" by (metis prod.exhaust)
    have c: "n = length log \<and> ((\<forall>k url p. http_fetch failing_env k url p \<noteq> Downloaded)
             \<and> (\<forall>k endpoint bucket key p.
                   oss_fetch failing_env k endpoint bucket key p \<noteq> Downloaded)
            \<longrightarrow> n = 0 \<and> t = ?md)"
      using T unfolding Inr r by (simp only: sum.case prod.case) blast
    then have "n = 0" "t = ?md" "log = []" using h o by auto
    then show ?thesis unfolding Inr r by simp
  qed
qed

text \<open>
  A run in which the second of two images is downloaded: the count is one and only
  the link of that image is rewritten.
\<close>

definition second_only_env :: download_env where
  "second_only_env =
     \<lparr>mkdir_error = None,
      oss2_available = False,
      environ = Map.empty,
      oss_fetch = (\<lambda>k endpoint bucket key p. Raised (Exn ''NoSuchKey'')),
      http_fetch = (\<lambda>k url p. if k = 1 then Downloaded else Failed)\<rparr>"

lemma reverse_relocation_second_only:
  "download_images_from_storage second_only_env
       ''![p1](http://minio.local/b/p1.png) ![p2](http://minio.local/b/p2.png)'' ''out''
     = Inr ((''![p1](http://minio.local/b/p1.png) ![p2](images/p2.png)'', 1),
            [(''http://minio.local/b/p2.png'', ''p2.png'')])"
  by code_simp

section \<open>Resolved URLs and their decomposition\<close>

text \<open>
  Characters of a host name that \<open>urlparse\<close> hands back unchanged, and characters
  of an object key that stay in the path.
\<close>

definition host_char :: "char \<Rightarrow> bool" where
  "host_char c = (c \<notin> set ''/?#@:[]%'' \<and> (of_char c :: nat) \<notin> {9, 10, 13} \<and> lower_char c = c)"

definition key_char :: "char \<Rightarrow> bool" where
  "key_char c = (c \<notin> set ''?#'' \<and> (of_char c :: nat) \<notin> {9, 10, 13})"

lemma takeWhile_all: "list_all P xs \<Longrightarrow> takeWhile P xs = xs"
  by (induction xs) auto

lemma takeWhile_stop: "list_all P xs \<Longrightarrow> \<not> P y \<Longrightarrow> takeWhile P (xs @ y # ys) = xs"
  by (induction xs) auto

lemma dropWhile_stop: "list_all P xs \<Longrightarrow> \<not> P y \<Longrightarrow> dropWhile P (xs @ y # ys) = y # ys"
  by (induction xs) auto

lemma filter_all: "list_all P xs \<Longrightarrow> filter P xs = xs"
  by (induction xs) auto

lemma split_scheme_https: "split_scheme (''https:'' @ r) = (''https'', r)"
proof -
  have "is_ascii_alpha CHR ''h''" "list_all scheme_char ''https''" "lower ''https'' = ''https''"
    by code_simp+
  then show ?thesis by (simp add: split_scheme_def partition_char_def)
qed

lemma startswith_append: "startswith (p @ r) p"
  by (induction p) auto

lemma startswith_prefix: "startswith s p \<Longrightarrow> \<exists>r. s = p @ r"
  by (induction s p rule: startswith.induct) auto

lemma contains_append_right: "contains (b @ p @ r) p"
proof (induction b)
  case Nil
  show ?case by (cases "p @ r") (use startswith_append[of p r] in auto)
next
  case (Cons c b)
  then show ?case by simp
qed

lemma startswith_before:
  "c \<notin> set q \<Longrightarrow> startswith (ys @ c # r) q \<Longrightarrow> startswith ys q"
proof (induction q arbitrary: ys)
  case Nil
  show ?case by simp
next
  case (Cons a q)
  then show ?case by (cases ys) auto
qed

lemma no_straddle:
  assumes "\<not> startswith x ''.oss-''" "x \<noteq> []"
  shows "\<not> startswith (x @ ''.oss-'' @ r) ''.oss-''"
proof
  assume s: "startswith (x @ ''.oss-'' @ r) ''.oss-''"
  obtain c ys where x: "x = c # ys" using assms(2) by (cases x) auto
  from s x have c: "c = CHR ''.''" and "startswith (ys @ CHR ''.'' # ''oss-'' @ r) ''oss-''"
    by auto
  then have "startswith ys ''oss-''"
    using startswith_before[of "CHR ''.''" "''oss-''" ys "''oss-'' @ r"] by simp
  with c x assms(1) show False by simp
qed

lemma split_str_before:
  "\<not> contains b ''.oss-'' \<Longrightarrow>
     split_str ''.oss-'' (b @ ''.oss-'' @ r) = b # split_str ''.oss-'' r"
proof (induction b)
  case Nil
  show ?case by (subst split_str.simps) simp
next
  case (Cons c b)
  then have n: "\<not> startswith (c # b) ''.oss-''" and nb: "\<not> contains b ''.oss-''"
    by auto
  have "\<not> startswith ((c # b) @ ''.oss-'' @ r) ''.oss-''"
    using no_straddle[OF n] by simp
  then show ?case
    using Cons.IH[OF nb] by (subst split_str.simps) simp
qed

lemma split_str_none:
  "\<not> contains s ''.oss-'' \<Longrightarrow> split_str ''.oss-'' s = [s]"
proof (induction s)
  case Nil
  show ?case by (subst split_str.simps) simp
next
  case (Cons c s)
  then show ?case by (subst split_str.simps) auto
qed


lemma take_last_segment: "take (length u - length (last_segment u)) u @ last_segment u = u"
proof -
  let ?P = "\<lambda>c. c \<noteq> CHR ''/''"
  have "rev u = takeWhile ?P (rev u) @ dropWhile ?P (rev u)" by simp
  then have "u = rev (dropWhile ?P (rev u)) @ last_segment u"
    unfolding last_segment_def by (metis rev_append rev_rev_ident)
  then obtain d where d: "u = d @ last_segment u" ..
  have "take (length u - length (last_segment u)) u = d"
    by (subst (2) d, subst (1) d) simp
  with d show ?thesis by simp
qed

lemma last_segment_slash: "last_segment (CHR ''/'' # key) = last_segment key"
proof -
  have "takeWhile (\<lambda>c. c \<noteq> CHR ''/'') (xs @ ''/'') = takeWhile (\<lambda>c. c \<noteq> CHR ''/'') xs" for xs
    by (induction xs) auto
  then show ?thesis by (simp add: last_segment_def)
qed

lemma splitparams_id:
  assumes "CHR '';'' \<notin> set (last_segment key)"
  shows "splitparams (CHR ''/'' # key) = CHR ''/'' # key"
proof -
  have "list_all (\<lambda>c. c \<noteq> CHR '';'') (last_segment (CHR ''/'' # key))"
    using assms by (auto simp: last_segment_slash list_all_iff)
  then have "takeWhile (\<lambda>c. c \<noteq> CHR '';'') (last_segment (CHR ''/'' # key))
      = last_segment (CHR ''/'' # key)"
    by (rule takeWhile_all)
  then show ?thesis
    using take_last_segment[of "CHR ''/'' # key"] by (simp only: splitparams_def)
qed

lemma clean_url_https:
  assumes "list_all (\<lambda>c. (of_char c :: nat) \<notin> {9, 10, 13}) r"
  shows "clean_url (''https://'' @ r) = ''https://'' @ r"
  using filter_all[OF assms] by (simp add: clean_url_def)

lemma split_netloc_host:
  assumes "list_all (\<lambda>c. c \<notin> set ''/?#'') host"
  shows "split_netloc (''//'' @ host @ ''/'' @ key) = (host, ''/'' @ key)"
  using takeWhile_stop[OF assms, of "CHR ''/''" key] dropWhile_stop[OF assms, of "CHR ''/''" key]
  by (simp add: split_netloc_def)

lemma url_path_key:
  assumes k: "list_all key_char key" and p: "CHR '';'' \<notin> set (last_segment key)"
  shows "url_path ''https'' (''/'' @ key) = ''/'' @ key"
proof -
  have q1: "takeWhile (\<lambda>c. c \<noteq> CHR ''#'') (CHR ''/'' # key) = CHR ''/'' # key"
    by (rule takeWhile_all) (use k in \<open>auto simp: list_all_iff key_char_def\<close>)
  have q2: "takeWhile (\<lambda>c. c \<noteq> CHR ''?'') (CHR ''/'' # key) = CHR ''/'' # key"
    by (rule takeWhile_all) (use k in \<open>auto simp: list_all_iff key_char_def\<close>)
  show ?thesis
    using splitparams_id[OF p] by (simp add: url_path_def q1 q2 Let_def del: takeWhile.simps)
qed

lemma urlparse_oss_url:
  assumes h: "list_all host_char host" and k: "list_all key_char key"
    and p: "CHR '';'' \<notin> set (last_segment key)"
  shows "urlparse (''https://'' @ host @ ''/'' @ key) = Inr (''https'', host, ''/'' @ key)"
proof -
  have hk: "list_all (\<lambda>c. (of_char c :: nat) \<notin> {9, 10, 13}) (host @ ''/'' @ key)"
    using h k by (auto simp: list_all_iff host_char_def key_char_def)
  have c: "clean_url (''https://'' @ host @ ''/'' @ key) = ''https:'' @ (''//'' @ host @ ''/'' @ key)"
    using clean_url_https[OF hk] by simp
  have hs: "list_all (\<lambda>c. c \<notin> set ''/?#'') host"
    using h by (auto simp: list_all_iff host_char_def)
  have b: "CHR ''['' \<notin> set host" "CHR '']'' \<notin> set host"
    using h by (auto simp: list_all_iff host_char_def)
  show ?thesis
    unfolding urlparse_def c split_scheme_https
    using b by (simp only: split_netloc_host[OF hs] url_path_key[OF k p] prod.case if_False simp_thms
        option.case)
qed

lemma hostname_plain:
  assumes h: "list_all host_char host" and ne: "host \<noteq> []"
  shows "hostname host = Some host"
proof -
  have a: "takeWhile (\<lambda>c. c \<noteq> CHR ''@'') (rev host) = rev host"
    by (rule takeWhile_all) (use h in \<open>auto simp: list_all_iff host_char_def\<close>)
  have br: "CHR ''['' \<notin> set host" using h by (auto simp: list_all_iff host_char_def)
  have pc: "CHR ''%'' \<notin> set host" using h by (auto simp: list_all_iff host_char_def)
  have c: "takeWhile (\<lambda>c. c \<noteq> CHR '':'') host = host"
    by (rule takeWhile_all) (use h in \<open>auto simp: list_all_iff host_char_def\<close>)
  have d: "takeWhile (\<lambda>c. c \<noteq> CHR ''%'') host = host"
    by (rule takeWhile_all) (use h in \<open>auto simp: list_all_iff host_char_def\<close>)
  have e: "dropWhile (\<lambda>c. c \<noteq> CHR ''%'') host = []"
    using pc by (auto simp: dropWhile_eq_Nil_conv)
  have l: "lower host = host"
    unfolding lower_def using h by (induction host) (auto simp: host_char_def)
  show ?thesis
    using ne br pc by (simp add: hostname_def a c d e l partition_char_def Let_def)
qed

text \<open>
  Claim C8, as amended. \<open>OSSStorage.get_url\<close> builds
  \<open>https://{bucket}.{endpoint}/{key}\<close> from the configured values and the key alone.
  For an endpoint \<open>oss-\<close> followed by a region, where neither the bucket nor the
  region contains \<open>.oss-\<close>, the host is in lower case without \<open>/ ? # @ : [ ] %\<close>,
  tab, line feed or carriage return, and the key has no \<open>?\<close>, \<open>#\<close>, tab, line
  feed or carriage return, does not start with \<open>/\<close> and has no \<open>;\<close> in its last
  segment, \<open>parse_oss_url\<close> gives back the bucket, the endpoint and the key.
\<close>

theorem oss_url_roundtrip:
  assumes h: "list_all host_char (bucket @ ''.oss-'' @ region)"
    and b: "\<not> contains bucket ''.oss-''" and r: "\<not> contains region ''.oss-''"
    and k: "list_all key_char key" and s: "\<not> startswith key ''/''"
    and p: "CHR '';'' \<notin> set (last_segment key)"
  shows "get_url (OSSStorage (''oss-'' @ region) bucket) key
           = ''https://'' @ bucket @ ''.'' @ (''oss-'' @ region) @ ''/'' @ key
    \<and> parse_oss_url (get_url (OSSStorage (''oss-'' @ region) bucket) key)
           = Inr (Some bucket, Some (''oss-'' @ region), Some key)"
proof -
  let ?host = "bucket @ ''.oss-'' @ region"
  have u: "get_url (OSSStorage (''oss-'' @ region) bucket) key = ''https://'' @ ?host @ ''/'' @ key"
    by simp
  have ne: "?host \<noteq> []" by simp
  have sp: "split_str ''.oss-'' ?host = [bucket, region]"
    using split_str_before[OF b, of region] split_str_none[OF r] by simp
  have dk: "dropWhile (\<lambda>c. c = CHR ''/'') (''/'' @ key) = key"
    using s by (cases key) auto
  have "parse_oss_url (get_url (OSSStorage (''oss-'' @ region) bucket) key)
           = Inr (Some bucket, Some (''oss-'' @ region), Some key)"
    unfolding u parse_oss_url_def urlparse_oss_url[OF h k p]
    using contains_append_right[of bucket "''.oss-''" region]
    by (simp only: hostname_plain[OF h ne] sp dk Let_def sum.case prod.case option.case
        list.case if_True)
  then show ?thesis by simp
qed

theorem oss_url_roundtrip_witness:
  "parse_oss_url (get_url (OSSStorage ''oss-cn-shanghai.aliyuncs.com'' ''docs'')
       ''images/3f2a.png'')
     = Inr (Some ''docs'', Some ''oss-cn-shanghai.aliyuncs.com'', Some ''images/3f2a.png'')"
proof -
  have h: "list_all host_char (''docs'' @ ''.oss-'' @ ''cn-shanghai.aliyuncs.com'')"
    by code_simp
  have b: "\<not> contains ''docs'' ''.oss-''" by code_simp
  have r: "\<not> contains ''cn-shanghai.aliyuncs.com'' ''.oss-''" by code_simp
  have k: "list_all key_char ''images/3f2a.png''" by code_simp
  have s: "\<not> startswith ''images/3f2a.png'' ''/''" by simp
  have p: "CHR '';'' \<notin> set (last_segment ''images/3f2a.png'')" by code_simp
  show ?thesis
    using oss_url_roundtrip [OF h b r k s p] by simp
qed

text \<open>
  The claim as stated fails: a key with \<open>#\<close> is cut at the \<open>#\<close> although the
  endpoint starts with \<open>oss-\<close> and the bucket has no \<open>.oss-\<close>; and the URL of
  \<open>MinioStorage.get_url\<close> has the scheme, the endpoint and the key, not the bucket.
\<close>

theorem oss_url_roundtrip_counterexample:
  "startswith ''oss-cn-shanghai.aliyuncs.com'' ''oss-''
   \<and> \<not> contains ''docs'' ''.oss-''
   \<and> parse_oss_url (get_url (OSSStorage ''oss-cn-shanghai.aliyuncs.com'' ''docs'')
         ''images/fig#1.png'')
       = Inr (Some ''docs'', Some ''oss-cn-shanghai.aliyuncs.com'', Some ''images/fig'')
   \<and> parse_oss_url (get_url (OSSStorage ''oss-cn-shanghai.aliyuncs.com'' ''docs'')
         ''images/fig#1.png'')
       \<noteq> Inr (Some ''docs'', Some ''oss-cn-shanghai.aliyuncs.com'', Some ''images/fig#1.png'')
   \<and> get_url (MinioStorage ''minio.local:9000'' ''docs'' False) ''images/fig.png''
       = ''http://minio.local:9000/images/fig.png''"
  by code_simp

section \<open>Documents as sequences of references\<close>

text \<open>
  A markup text written as a sequence of segments: plain text, an inline image
  \<open>![alt](target)\<close> and a raw tag \<open><img src="target" alt="alt">\<close>. The image
  references of the document are its \<open>Inline\<close> and \<open>Tag\<close> segments, in order.
\<close>

datatype segment = Plain string | Inline string string | Tag string string

fun render :: "segment \<Rightarrow> string" where
  "render (Plain t) = t"
| "render (Inline alt_text target) = md_image alt_text target"
| "render (Tag alt_text target) = img_tag target alt_text"

definition render_doc :: "segment list \<Rightarrow> string" where
  "render_doc segs = concat (map render segs)"

text \<open>
  A segment is well formed when its text cannot be read as the start of another
  reference: plain text has no \<open>!\<close> and no \<open><\<close>; an inline image has a non-empty
  target without \<open>)\<close>, an alt text without \<open>]\<close>, and no \<open><\<close>; a raw tag has a
  non-empty target, no double quote in target and alt text, and no \<open>!\<close>.
\<close>

fun wf_segment :: "segment \<Rightarrow> bool" where
  "wf_segment (Plain t) = (CHR ''!'' \<notin> set t \<and> CHR ''<'' \<notin> set t)"
| "wf_segment (Inline alt_text target) =
     (target \<noteq> [] \<and> CHR '']'' \<notin> set alt_text \<and> CHR '')'' \<notin> set target
      \<and> CHR ''<'' \<notin> set alt_text \<and> CHR ''<'' \<notin> set target)"
| "wf_segment (Tag alt_text target) =
     (target \<noteq> [] \<and> CHR ''\"'' \<notin> set target \<and> CHR ''\"'' \<notin> set alt_text
      \<and> CHR ''!'' \<notin> set alt_text \<and> CHR ''!'' \<notin> set target)"

text \<open>The references of each syntax, in document order, as (alt text, target).\<close>

fun references :: "segment list \<Rightarrow> (string \<times> string) list" where
  "references [] = []"
| "references (Plain t # segs) = references segs"
| "references (Inline alt_text target # segs) = (alt_text, target) # references segs"
| "references (Tag alt_text target # segs) = (alt_text, target) # references segs"

fun inline_references :: "segment list \<Rightarrow> (string \<times> string) list" where
  "inline_references [] = []"
| "inline_references (Inline alt_text target # segs) = (alt_text, target) # inline_references segs"
| "inline_references (seg # segs) = inline_references segs"

fun tag_references :: "segment list \<Rightarrow> (string \<times> string) list" where
  "tag_references [] = []"
| "tag_references (Tag alt_text target # segs) = (alt_text, target) # tag_references segs"
| "tag_references (seg # segs) = tag_references segs"

definition is_remote :: "string \<times> string \<Rightarrow> bool" where
  "is_remote r = (startswith (snd r) ''http://'' \<or> startswith (snd r) ''https://'')"

section \<open>Extraction on documents\<close>

lemma match_md_other: "c \<noteq> CHR ''!'' \<Longrightarrow> match_md (c # s) = None"
  by (simp add: match_md_def)

lemma match_md_Nil: "match_md [] = None"
  by (simp add: match_md_def)

lemma finditer_md_skip: "CHR ''!'' \<notin> set t \<Longrightarrow> finditer_md (t @ r) = finditer_md r"
proof (induction t)
  case Nil
  show ?case by simp
next
  case (Cons c t)
  then have "match_md (c # t @ r) = None" by (intro match_md_other) auto
  then show ?case using Cons by (subst finditer_md.simps) simp
qed

lemma lit_append: "lit p (p @ r) = Some r"
  by (induction p) auto

lemma match_md_image:
  assumes "CHR '']'' \<notin> set a" "CHR '')'' \<notin> set u" "u \<noteq> []"
  shows "match_md (md_image a u @ r) = Some (a, u, r)"
proof -
  have 1: "takeWhile (\<lambda>c. c \<noteq> CHR '']'') (a @ CHR '']'' # x) = a" for x
    using assms(1) by (induction a) auto
  have 2: "dropWhile (\<lambda>c. c \<noteq> CHR '']'') (a @ CHR '']'' # x) = CHR '']'' # x" for x
    using assms(1) by (induction a) auto
  have 3: "takeWhile (\<lambda>c. c \<noteq> CHR '')'') (u @ CHR '')'' # x) = u" for x
    using assms(2) by (induction u) auto
  have 4: "dropWhile (\<lambda>c. c \<noteq> CHR '')'') (u @ CHR '')'' # x) = CHR '')'' # x" for x
    using assms(2) by (induction u) auto
  show ?thesis
    using assms(3) by (simp add: match_md_def md_image_def 1 2 3 4 Let_def del: takeWhile.simps dropWhile.simps)
qed

lemma finditer_md_image:
  assumes "CHR '']'' \<notin> set a" "CHR '')'' \<notin> set u" "u \<noteq> []"
  shows "finditer_md (md_image a u @ r) = (a, u) # finditer_md r"
  by (subst finditer_md.simps) (simp add: match_md_image[OF assms])

lemma bang_notin_img_tag: "CHR ''!'' \<notin> set a \<Longrightarrow> CHR ''!'' \<notin> set u \<Longrightarrow> CHR ''!'' \<notin> set (img_tag u a)"
  by (simp add: img_tag_def)

lemma finditer_md_doc:
  "list_all wf_segment segs \<Longrightarrow> finditer_md (render_doc segs @ r) = inline_references segs @ finditer_md r"
proof (induction segs)
  case Nil
  show ?case by (simp add: render_doc_def)
next
  case (Cons seg segs)
  then have ih: "finditer_md (render_doc segs @ r) = inline_references segs @ finditer_md r"
    by simp
  show ?case
  proof (cases seg)
    case (Plain t)
    then show ?thesis using Cons.prems ih
      by (simp add: render_doc_def finditer_md_skip)
  next
    case (Inline a u)
    then show ?thesis using Cons.prems ih
      by (simp add: render_doc_def finditer_md_image)
  next
    case (Tag a u)
    then show ?thesis using Cons.prems ih
      by (simp add: render_doc_def finditer_md_skip bang_notin_img_tag)
  qed
qed


lemma finditer_md_Nil: "finditer_md [] = []"
  by (subst finditer_md.simps) (simp add: match_md_Nil)

lemma match_html_other: "c \<noteq> CHR ''<'' \<Longrightarrow> match_html (c # s) = None"
  by (simp add: match_html_def)

lemma match_html_Nil: "match_html [] = None"
  by (simp add: match_html_def)

lemma finditer_html_Nil: "finditer_html [] = []"
  by (subst finditer_html.simps) (simp add: match_html_Nil)

lemma finditer_html_skip: "CHR ''<'' \<notin> set t \<Longrightarrow> finditer_html (t @ r) = finditer_html r"
proof (induction t)
  case Nil
  show ?case by simp
next
  case (Cons c t)
  then have "match_html (c # t @ r) = None" by (intro match_html_other) auto
  then show ?case using Cons by (subst finditer_html.simps) simp
qed

lemma takeWhile_until: "c \<notin> set xs \<Longrightarrow> takeWhile (\<lambda>x. x \<noteq> c) (xs @ c # ys) = xs"
  by (induction xs) auto

lemma dropWhile_until: "c \<notin> set xs \<Longrightarrow> dropWhile (\<lambda>x. x \<noteq> c) (xs @ c # ys) = c # ys"
  by (induction xs) auto

lemma spaces1_one: "\<not> is_space c \<Longrightarrow> spaces1 (CHR '' '' # c # s) = Some (c # s)"
proof -
  have "is_space CHR '' ''" by code_simp
  then show "\<not> is_space c \<Longrightarrow> spaces1 (CHR '' '' # c # s) = Some (c # s)"
    by (simp add: spaces1_def)
qed

lemma alt_group_alt:
  assumes "CHR ''\"'' \<notin> set a"
  shows "alt_group ('' alt=\"'' @ a @ ''\"'' @ r) = Some (a, r)"
proof -
  have ns: "\<not> is_space CHR ''a''" by code_simp
  have sp: "spaces1 ('' alt=\"'' @ a @ ''\"'' @ r) = Some (''alt=\"'' @ a @ ''\"'' @ r)"
    using spaces1_one[OF ns] by simp
  show ?thesis
    using takeWhile_until[OF assms, of r] dropWhile_until[OF assms, of r]
    by (simp add: alt_group_def spaces1_one[OF ns] del: takeWhile.simps dropWhile.simps)
qed

lemma tag_end_here: "tag_end (CHR ''>'' # r) = Some r"
  by (simp add: tag_end_def)

lemma match_html_tag:
  assumes "CHR ''\"'' \<notin> set u" "CHR ''\"'' \<notin> set a" "u \<noteq> []"
  shows "match_html (img_tag u a @ r) = Some (u, Some a, r)"
proof -
  have ns: "\<not> is_space CHR ''s''" by code_simp
  have sp: "spaces1 ('' src=\"'' @ x) = Some (''src=\"'' @ x)" for x
    using spaces1_one[OF ns] by simp
  have t: "img_tag u a @ r = ''<img'' @ ('' src=\"'' @ (u @ ''\"'' @ ('' alt=\"'' @ a @ ''\"'' @ (''>'' @ r))))"
    by (simp add: img_tag_def)
  have ag: "alt_group ('' alt=\"'' @ a @ ''\"'' @ (''>'' @ r)) = Some (a, ''>'' @ r)"
    by (rule alt_group_alt[OF assms(2)])
  have tw: "takeWhile (\<lambda>c. c \<noteq> CHR ''\"'') (u @ ''\"'' @ x) = u" for x
    using takeWhile_until[OF assms(1), of x] by simp
  have dw: "dropWhile (\<lambda>c. c \<noteq> CHR ''\"'') (u @ ''\"'' @ x) = ''\"'' @ x" for x
    using dropWhile_until[OF assms(1), of x] by simp
  have te: "tag_end (''>'' @ r) = Some r" using tag_end_here by simp
  show ?thesis
    unfolding t match_html_def lit_append option.case sp tw dw Let_def
    using assms(3) ag te
    by (simp only: lit_append option.case if_False prod.case)
qed

lemma finditer_html_tag:
  assumes "CHR ''\"'' \<notin> set u" "CHR ''\"'' \<notin> set a" "u \<noteq> []"
  shows "finditer_html (img_tag u a @ r) = (u, Some a) # finditer_html r"
  by (subst finditer_html.simps) (simp add: match_html_tag[OF assms])

lemma lt_notin_md_image: "CHR ''<'' \<notin> set a \<Longrightarrow> CHR ''<'' \<notin> set u \<Longrightarrow> CHR ''<'' \<notin> set (md_image a u)"
  by (simp add: md_image_def)

lemma finditer_html_doc:
  "list_all wf_segment segs \<Longrightarrow>
     finditer_html (render_doc segs @ r)
       = map (\<lambda>(a, u). (u, Some a)) (tag_references segs) @ finditer_html r"
proof (induction segs)
  case Nil
  show ?case by (simp add: render_doc_def)
next
  case (Cons seg segs)
  then have ih: "finditer_html (render_doc segs @ r)
       = map (\<lambda>(a, u). (u, Some a)) (tag_references segs) @ finditer_html r"
    by simp
  show ?case
  proof (cases seg)
    case (Plain t)
    then show ?thesis using Cons.prems ih
      by (simp add: render_doc_def finditer_html_skip)
  next
    case (Inline a u)
    then show ?thesis using Cons.prems ih
      by (simp add: render_doc_def finditer_html_skip lt_notin_md_image)
  next
    case (Tag a u)
    then show ?thesis using Cons.prems ih
      by (simp add: render_doc_def finditer_html_tag)
  qed
qed

text \<open>
  Claim C1, as amended. For a document of well-formed segments, extraction returns
  the raw-tag references in document order, followed by the inline references whose
  target starts with \<open>http://\<close> or \<open>https://\<close> in document order; duplicates are
  kept, and inline references with another target are left out.
\<close>

theorem extraction_order:
  assumes "list_all wf_segment segs"
  shows "extract_image_urls (render_doc segs)
           = tag_references segs @ filter is_remote (inline_references segs)"
proof -
  have h: "finditer_html (render_doc segs) = map (\<lambda>(a, u). (u, Some a)) (tag_references segs)"
    using finditer_html_doc[OF assms, of "[]"] by (simp add: finditer_html_Nil)
  have m: "finditer_md (render_doc segs) = inline_references segs"
    using finditer_md_doc[OF assms, of "[]"] by (simp add: finditer_md_Nil)
  have f: "(\<lambda>(alt_text, url). startswith url ''http://'' \<or> startswith url ''https://'') = is_remote"
    by (auto simp: is_remote_def fun_eq_iff)
  show ?thesis
    unfolding extract_image_urls_def h m f
    by (simp add: comp_def case_prod_beta)
qed


theorem extraction_order_witness:
  "extract_image_urls (render_doc
     [Tag ''p1'' ''https://h/1.png'', Plain '' and '', Inline ''p2'' ''https://h/2.png'',
      Plain '' and '', Tag ''p1'' ''https://h/1.png''])
   = [(''p1'', ''https://h/1.png''), (''p1'', ''https://h/1.png''), (''p2'', ''https://h/2.png'')]"
proof -
  have w: "list_all wf_segment
     [Tag ''p1'' ''https://h/1.png'', Plain '' and '', Inline ''p2'' ''https://h/2.png'',
      Plain '' and '', Tag ''p1'' ''https://h/1.png'']"
    by simp
  have r: "is_remote (''p2'', ''https://h/2.png'')" by (simp add: is_remote_def)
  show ?thesis
    using extraction_order [OF w] r by simp
qed

text \<open>
  The claim as stated fails: of three references, an inline image with a remote
  target, an inline image with a relative target and a raw tag, extraction returns
  two, and the raw tag comes first although it is last in the document.
\<close>

theorem extraction_order_counterexample:
  "list_all wf_segment
     [Inline ''a'' ''http://h/1.png'', Plain '' '', Inline ''c'' ''rel.png'', Plain '' '',
      Tag ''b'' ''http://h/2.png'']
   \<and> references
     [Inline ''a'' ''http://h/1.png'', Plain '' '', Inline ''c'' ''rel.png'', Plain '' '',
      Tag ''b'' ''http://h/2.png'']
     = [(''a'', ''http://h/1.png''), (''c'', ''rel.png''), (''b'', ''http://h/2.png'')]
   \<and> render_doc
     [Inline ''a'' ''http://h/1.png'', Plain '' '', Inline ''c'' ''rel.png'', Plain '' '',
      Tag ''b'' ''http://h/2.png'']
     = ''![a](http://h/1.png) ![c](rel.png) <img src=\"http://h/2.png\" alt=\"b\">''
   \<and> extract_image_urls
       ''![a](http://h/1.png) ![c](rel.png) <img src=\"http://h/2.png\" alt=\"b\">''
     = [(''b'', ''http://h/2.png''), (''a'', ''http://h/1.png'')]"
  by code_simp

section \<open>Forward relocation on documents\<close>

text \<open>
  What forward relocation does to a document, segment by segment. \<open>k\<close> counts the
  \<open>upload_file\<close> calls made so far. \<open>local_file\<close> is the file a reference is looked
  up as, \<open>present\<close> says that it exists, \<open>exists_raises\<close> that looking raises, and
  \<open>object_name\<close> is the key of the \<open>k\<close>-th upload.
\<close>

fun local_file :: "string \<Rightarrow> segment \<Rightarrow> string" where
  "local_file image_dir (Inline alt_text target) = joinpath image_dir (path_name target)"
| "local_file image_dir seg = []"

fun present :: "upload_env \<Rightarrow> string \<Rightarrow> segment \<Rightarrow> bool" where
  "present env image_dir (Inline alt_text target) =
     (path_exists env (joinpath image_dir (path_name target)) = Inr True)"
| "present env image_dir seg = False"

fun exists_raises :: "upload_env \<Rightarrow> string \<Rightarrow> segment \<Rightarrow> bool" where
  "exists_raises env image_dir (Inline alt_text target) =
     isl (path_exists env (joinpath image_dir (path_name target)))"
| "exists_raises env image_dir seg = False"

definition object_name :: "upload_env \<Rightarrow> string \<Rightarrow> nat \<Rightarrow> segment \<Rightarrow> string" where
  "object_name env image_dir k seg =
     ''images/'' @ uuid4 env k @ path_suffix (local_file image_dir seg)"

definition upload_ok :: "upload_env \<Rightarrow> string \<Rightarrow> nat \<Rightarrow> segment \<Rightarrow> bool" where
  "upload_ok env image_dir k seg =
     put_ok env k (local_file image_dir seg) (object_name env image_dir k seg)"


text \<open>One segment after relocation, when it is reached with \<open>k\<close> uploads made.\<close>

fun relocate_one :: "upload_env \<Rightarrow> storage_backend \<Rightarrow> string \<Rightarrow> nat \<Rightarrow> segment \<Rightarrow> segment" where
  "relocate_one env backend image_dir k (Inline alt_text target) =
     (if present env image_dir (Inline alt_text target)
         \<and> upload_ok env image_dir k (Inline alt_text target)
      then Tag alt_text (get_url backend (object_name env image_dir k (Inline alt_text target)))
      else Inline alt_text target)"
| "relocate_one env backend image_dir k seg = seg"


fun attempts :: "upload_env \<Rightarrow> string \<Rightarrow> nat \<Rightarrow> segment list \<Rightarrow> upload_log" where
  "attempts env image_dir k [] = []"
| "attempts env image_dir k (seg # segs) =
     (if present env image_dir seg
      then (local_file image_dir seg, object_name env image_dir k seg,
            upload_ok env image_dir k seg) # attempts env image_dir (Suc k) segs
      else attempts env image_dir k segs)"








lemma replace_image_inline:
  assumes "\<not> exists_raises env d (Inline a u)"
  shows "replace_image env b d (a, u) log =
     (Inr (render (relocate_one env b d (length log) (Inline a u))),
      log @ attempts env d (length log) [Inline a u])"
proof (cases "path_exists env (joinpath d (path_name u))")
  case (Inl e)
  then show ?thesis using assms by simp
next
  case (Inr ex)
  then show ?thesis
    by (cases ex) (simp_all add: replace_image_def Let_def object_name_def upload_ok_def)
qed












text \<open>
  The scan of \<open>re.sub(img_pattern, replace_image, md_content)\<close> cuts every text into
  segments: an \<open>Inline\<close> segment for each match, and a one-character \<open>Plain\<close> segment
  for each character the scan steps over. The inline images of a text are the
  \<open>Inline\<close> segments of this cut; it has no \<open>Tag\<close> segment, since a raw tag is plain
  text to this pattern.
\<close>

function segments_of :: "string \<Rightarrow> segment list" where
  "segments_of s =
     (case match_md s of
        Some (alt_text, url, r) \<Rightarrow> Inline alt_text url # segments_of r
      | None \<Rightarrow> (case s of [] \<Rightarrow> [] | c # cs \<Rightarrow> Plain [c] # segments_of cs))"
  by pat_completeness auto
termination
  by (relation "measure length") (auto simp: match_md_shorter)

declare segments_of.simps [simp del]





lemma segments_of_no_tag: "Tag a u \<notin> set (segments_of s)"
proof (induction s rule: segments_of.induct)
  case (1 s)
  show ?case
  proof (cases "match_md s")
    case None
    show ?thesis
    proof (cases s)
      case Nil
      then show ?thesis using None by (subst segments_of.simps) simp
    next
      case (Cons c cs)
      have "Tag a u \<notin> set (segments_of cs)" using 1(1)[OF None Cons] .
      then show ?thesis using None Cons by (subst segments_of.simps) simp
    qed
  next
    case (Some m)
    obtain a' u' r where m: "m = (a', u', r)" by (metis prod.exhaust)
    have ih: "Tag a u \<notin> set (segments_of r)" using 1(2)[OF Some, of a' "(u', r)" u' r] m by simp
    show ?thesis using Some m ih by (subst segments_of.simps) simp
  qed
qed


lemma re_sub_md_scan_raise:
  "list_ex (exists_raises env d) (segments_of s) \<Longrightarrow>
     \<exists>e log'. re_sub_md (replace_image env b d) s log = (Inl e, log')"
proof (induction s arbitrary: log rule: segments_of.induct)
  case (1 s)
  let ?F = "replace_image env b d"
  show ?case
  proof (cases "match_md s")
    case None
    show ?thesis
    proof (cases s)
      case Nil
      then show ?thesis using None 1(3)
        by (subst (asm) segments_of.simps) simp
    next
      case (Cons c cs)
      have seg: "segments_of s = Plain [c] # segments_of cs"
        using None Cons by (subst segments_of.simps) simp
      have nr: "list_ex (exists_raises env d) (segments_of cs)"
        using 1(3) unfolding seg by simp
      obtain e log' where "re_sub_md ?F cs log = (Inl e, log')"
        using 1(1)[OF None Cons nr] by blast
      then show ?thesis using None Cons
        by (subst re_sub_md.simps) simp
    qed
  next
    case (Some m)
    obtain a u r where m: "m = (a, u, r)" by (metis prod.exhaust)
    have seg: "segments_of s = Inline a u # segments_of r"
      using Some m by (subst segments_of.simps) simp
    show ?thesis
    proof (cases "exists_raises env d (Inline a u)")
      case True
      then obtain e where e: "path_exists env (joinpath d (path_name u)) = Inl e"
        by (cases "path_exists env (joinpath d (path_name u))") auto
      have "?F (a, u) log = (Inl e, log)" by (simp add: replace_image_def e)
      then show ?thesis by (subst re_sub_md.simps) (simp add: Some m)
    next
      case False
      then have nr: "list_ex (exists_raises env d) (segments_of r)"
        using 1(3) unfolding seg by simp
      let ?log = "log @ attempts env d (length log) [Inline a u]"
      obtain e log' where "re_sub_md ?F r ?log = (Inl e, log')"
        using 1(2)[OF Some, of a "(u, r)" u r ?log] m nr by blast
      then show ?thesis
        by (subst re_sub_md.simps) (simp add: Some m replace_image_inline[OF False] del: attempts.simps relocate_one.simps)
    qed
  qed
qed





lemma attempts_one_plain [simp]: "attempts env d k [Plain t] = []" "attempts env d k [Tag a u] = []"
  by simp_all














text \<open>
  An environment whose only file is \<open>out/images/a.png\<close>: no other path exists.
\<close>

definition basename_env :: upload_env where
  "basename_env =
     \<lparr>path_exists = (\<lambda>p. Inr (p = ''out/images/a.png'')),
      uuid4 = (\<lambda>k. ''uuid'' @ decimal k),
      put_ok = (\<lambda>k p n. True)\<rparr>"



text \<open>
  The claim as stated fails: the file is looked up by the base name of the target
  inside the image directory, so a reference whose target does not exist locally (a
  remote URL, a path in another directory) is uploaded and rewritten when a file of
  the same base name is in the image directory.
\<close>

theorem upload_failure_isolated_counterexample:
  "path_exists basename_env ''https://cdn.example.com/img/a.png'' = Inr False
   \<and> process_markdown_images basename_env (Some example_backend)
       ''![logo](https://cdn.example.com/img/a.png)'' ''out/images'' True
     = (''<img src=\"https://docs.oss-cn-shanghai.aliyuncs.com/images/uuid0.png\" alt=\"logo\">'',
        [(''out/images/a.png'', ''images/uuid0.png'', True)])
   \<and> path_exists basename_env ''other/a.png'' = Inr False
   \<and> path_exists basename_env ''out/images/other/a.png'' = Inr False
   \<and> process_markdown_images basename_env (Some example_backend)
       ''![x](other/a.png)'' ''out/images'' True
     = (''<img src=\"https://docs.oss-cn-shanghai.aliyuncs.com/images/uuid0.png\" alt=\"x\">'',
        [(''out/images/a.png'', ''images/uuid0.png'', True)])"
  by code_simp




section \<open>Task lifecycle polling\<close>









































section \<open>The passthrough orchestrator\<close>













end
